theory Spec2Isabelle
  imports Main
begin

section \<open>Transit network: weighted graph store (projeto2.c)\<close>

text \<open>
  Node indices stored in a graph are array indices, so they are natural numbers; the C
  variables that can also hold the sentinel \<open>-1\<close> (predecessor entries, the selected node
  of the minimum scan, the arguments of the path printer) are integers. Names of
  projeto2.c that clash with the maze program carry the suffix \<open>_p2\<close>.
\<close>

definition MAX_NODES_p2 :: nat where
  "MAX_NODES_p2 = 20"

definition INFINITY :: int where
  "INFINITY = 2147483647"

record Graph_p2 =
  num_nodes_p2 :: nat
  adj_lists_p2 :: "(nat \<times> int) list list"
  node_names :: "string option list"

definition create_graph_p2 :: "nat \<Rightarrow> Graph_p2" where
  "create_graph_p2 n =
     \<lparr>num_nodes_p2 = n, adj_lists_p2 = replicate n [], node_names = replicate n None\<rparr>"

text \<open>\<open>add_edge\<close> puts the new edge in front of the list of \<open>src\<close>.\<close>

definition add_edge_p2 :: "Graph_p2 \<Rightarrow> nat \<Rightarrow> nat \<Rightarrow> int \<Rightarrow> Graph_p2" where
  "add_edge_p2 g src dest weight =
     g\<lparr>adj_lists_p2 := (adj_lists_p2 g)[src := (dest, weight) # adj_lists_p2 g ! src]\<rparr>"

text \<open>
  \<open>set_node_name\<close> writes to stderr and either returns or ends the process. The
  messages are the two the function can print; \<open>malloc_ok\<close> says whether the
  allocation of the copy succeeds. When it fails the slot already holds the null
  pointer, and the process exits.
\<close>

datatype message = Err_invalid_node_index | Err_alloc_node_name

datatype call_result = Returned Graph_p2 "message list" | Exited Graph_p2 "message list"

definition set_node_name :: "bool \<Rightarrow> Graph_p2 \<Rightarrow> int \<Rightarrow> string \<Rightarrow> call_result" where
  "set_node_name malloc_ok g node_index name =
     (if node_index < 0 \<or> node_index \<ge> int (num_nodes_p2 g)
      then Returned g [Err_invalid_node_index]
      else if \<not> malloc_ok
      then Exited (g\<lparr>node_names := (node_names g)[nat node_index := None]\<rparr>) [Err_alloc_node_name]
      else Returned (g\<lparr>node_names := (node_names g)[nat node_index := Some name]\<rparr>) [])"

section \<open>Dijkstra (projeto2.c)\<close>

text \<open>
  \<open>dist\<close> holds C \<open>int\<close>s. The one arithmetic operation on them is
  \<open>dist[u] + weight\<close>; its result is taken in 32-bit two's complement.
\<close>

definition wrap_int :: "int \<Rightarrow> int" where
  "wrap_int x = (x + 2147483648) mod 4294967296 - 2147483648"

text \<open>The minimum scan: the accumulator is \<open>(min_dist, u)\<close>.\<close>

definition min_scan_step :: "int list \<Rightarrow> bool list \<Rightarrow> nat \<Rightarrow> int \<times> int \<Rightarrow> int \<times> int" where
  "min_scan_step dist visited v acc =
     (if \<not> visited ! v \<and> dist ! v \<le> fst acc then (dist ! v, int v) else acc)"

definition min_scan :: "nat \<Rightarrow> int list \<Rightarrow> bool list \<Rightarrow> int \<times> int" where
  "min_scan n dist visited = fold (min_scan_step dist visited) [0..<n] (INFINITY, -1)"

text \<open>The relaxation of one adjacency entry of \<open>u\<close>, and of the whole list.\<close>

definition relax_edge :: "nat \<Rightarrow> bool list \<Rightarrow> nat \<times> int \<Rightarrow> int list \<times> int list \<Rightarrow> int list \<times> int list" where
  "relax_edge u visited e st =
     (let v = fst e; weight = snd e; dist = fst st; parent = snd st in
      if \<not> visited ! v \<and> dist ! u \<noteq> INFINITY \<and> wrap_int (dist ! u + weight) < dist ! v
      then (dist[v := wrap_int (dist ! u + weight)], parent[v := int u])
      else (dist, parent))"

definition relax :: "nat \<Rightarrow> bool list \<Rightarrow> (nat \<times> int) list \<Rightarrow> int list \<times> int list \<Rightarrow> int list \<times> int list" where
  "relax u visited edges st = fold (relax_edge u visited) edges st"

text \<open>
  The main loop; the first argument counts the iterations that remain. The state is
  \<open>(dist, visited, parent)\<close>.
\<close>

fun dijkstra_loop :: "nat \<Rightarrow> Graph_p2 \<Rightarrow> int list \<times> bool list \<times> int list \<Rightarrow> int list \<times> bool list \<times> int list" where
  "dijkstra_loop 0 g st = st"
| "dijkstra_loop (Suc k) g (dist, visited, parent) =
     (let u = snd (min_scan (num_nodes_p2 g) dist visited) in
      if u = -1 then (dist, visited, parent)
      else
        let visited' = visited[nat u := True];
            st' = relax (nat u) visited' (adj_lists_p2 g ! nat u) (dist, parent)
        in dijkstra_loop k g (fst st', visited', snd st'))"

definition dijkstra_init :: "Graph_p2 \<Rightarrow> nat \<Rightarrow> int list \<times> bool list \<times> int list" where
  "dijkstra_init g start_node =
     ((replicate (num_nodes_p2 g) INFINITY)[start_node := 0],
      replicate (num_nodes_p2 g) False,
      replicate (num_nodes_p2 g) (-1))"

definition dijkstra_run :: "Graph_p2 \<Rightarrow> nat \<Rightarrow> int list \<times> bool list \<times> int list" where
  "dijkstra_run g start_node =
     dijkstra_loop (num_nodes_p2 g - 1) g (dijkstra_init g start_node)"

text \<open>What the caller gets back: the arrays \<open>dist\<close> and \<open>parent\<close>.\<close>

definition dijkstra :: "Graph_p2 \<Rightarrow> nat \<Rightarrow> int list \<times> int list" where
  "dijkstra g start_node =
     (let st = dijkstra_run g start_node in (fst st, snd (snd st)))"

section \<open>Printing the route (projeto2.c)\<close>

text \<open>
  \<open>print_path\<close> prints one of three things: that the traveller is already at the stop,
  that there is no route, or the stops of the route from start to end. The loop fills
  the array \<open>path[MAX_NODES]\<close> from the end node backwards; its first argument here is
  the number of free slots, and \<open>None\<close> stands for a write past the end of the array.
  The array is printed from its last entry down to the first.
\<close>

datatype route_output = Already_at int | No_route int int | Route "int list"

fun path_loop :: "nat \<Rightarrow> int list \<Rightarrow> int \<Rightarrow> int \<Rightarrow> int list \<Rightarrow> int list option" where
  "path_loop 0 parent start_node current path =
     (if current \<noteq> -1 \<and> current \<noteq> start_node then None else Some path)"
| "path_loop (Suc free) parent start_node current path =
     (if current \<noteq> -1 \<and> current \<noteq> start_node
      then path_loop free parent start_node (parent ! nat current) (path @ [current])
      else Some path)"

definition print_path_p2 :: "int list \<Rightarrow> int \<Rightarrow> int \<Rightarrow> route_output option" where
  "print_path_p2 parent start_node end_node =
     (if end_node = start_node then Some (Already_at start_node)
      else if parent ! nat end_node = -1 \<and> end_node \<noteq> start_node
      then Some (No_route start_node end_node)
      else
        (case path_loop MAX_NODES_p2 parent start_node end_node [] of
           None \<Rightarrow> None
         | Some path \<Rightarrow>
             if length path < MAX_NODES_p2 then Some (Route (rev (path @ [start_node])))
             else None))"

section \<open>Maze: graph store, queue, BFS and DFS (the maze program)\<close>

definition MAX_NODES :: nat where
  "MAX_NODES = 100"

record Graph =
  num_nodes :: nat
  adj_lists :: "nat list list"

definition create_graph :: "nat \<Rightarrow> Graph" where
  "create_graph n = \<lparr>num_nodes = n, adj_lists = replicate n []\<rparr>"

text \<open>The maze's \<open>add_edge\<close> inserts both directions, each in front of its list.\<close>

definition add_edge :: "Graph \<Rightarrow> nat \<Rightarrow> nat \<Rightarrow> Graph" where
  "add_edge g src dest =
     (let a1 = (adj_lists g)[src := dest # adj_lists g ! src];
          a2 = a1[dest := src # a1 ! dest]
      in g\<lparr>adj_lists := a2\<rparr>)"

text \<open>
  The maze's \<open>print_path\<close>: no path when it is handed \<open>-1\<close> as end node, else the
  backward walk. Its loop is the loop of the route printer, statement for statement, so
  \<open>path_loop\<close> serves both, here with the array \<open>path[MAX_NODES]\<close> of the maze program.
  The output is the sequence of node indices whose cells are printed.
\<close>

datatype path_output = No_path | Path "int list"

definition print_path :: "int list \<Rightarrow> int \<Rightarrow> int \<Rightarrow> path_output option" where
  "print_path parent start_node end_node =
     (if end_node = -1 then Some No_path
      else
        (case path_loop MAX_NODES parent start_node end_node [] of
           None \<Rightarrow> None
         | Some path \<Rightarrow>
             if length path < MAX_NODES then Some (Path (rev (path @ [start_node])))
             else None))"

text \<open>
  BFS. The queue is a list, front first: \<open>enqueue\<close> appends, and the case distinction
  of the outer loop is \<open>is_empty_queue\<close> followed by \<open>dequeue\<close>. The inner loop over the
  adjacency list of \<open>u\<close> is a fold; the outer loop runs until the queue is empty or the
  end node is dequeued, and returns \<open>visited\<close>, \<open>parent\<close> and \<open>path_found_end_node\<close>.
  It is a partial function: \<open>None\<close> would be a loop that never ends.
\<close>

definition bfs_neighbor :: "nat \<Rightarrow> nat \<Rightarrow> bool list \<times> int list \<times> nat list \<Rightarrow> bool list \<times> int list \<times> nat list" where
  "bfs_neighbor u v st =
     (let visited = fst st; parent = fst (snd st); q = snd (snd st) in
      if \<not> visited ! v then (visited[v := True], parent[v := int u], q @ [v])
      else (visited, parent, q))"

definition bfs_neighbors :: "nat \<Rightarrow> nat list \<Rightarrow> bool list \<times> int list \<times> nat list \<Rightarrow> bool list \<times> int list \<times> nat list" where
  "bfs_neighbors u vs st = fold (bfs_neighbor u) vs st"

partial_function (option) bfs_loop :: "Graph \<Rightarrow> nat \<Rightarrow> bool list \<times> int list \<times> nat list \<Rightarrow> (bool list \<times> int list \<times> int) option" where
  "bfs_loop g end_node st =
     (case snd (snd st) of
        [] \<Rightarrow> Some (fst st, fst (snd st), -1)
      | u # q' \<Rightarrow>
          if u = end_node then Some (fst st, fst (snd st), int u)
          else bfs_loop g end_node
                 (bfs_neighbors u (adj_lists g ! u) (fst st, fst (snd st), q')))"

declare bfs_loop.simps [code]

definition bfs_init :: "Graph \<Rightarrow> nat \<Rightarrow> bool list \<times> int list \<times> nat list" where
  "bfs_init g start_node =
     ((replicate (num_nodes g) False)[start_node := True],
      replicate (num_nodes g) (-1),
      [start_node])"

text \<open>\<open>bfs\<close> gives back \<open>parent\<close>, \<open>path_found_end_node\<close> and what it printed.\<close>

definition bfs :: "Graph \<Rightarrow> nat \<Rightarrow> nat \<Rightarrow> (int list \<times> int \<times> path_output) option" where
  "bfs g start_node end_node =
     (case bfs_loop g end_node (bfs_init g start_node) of
        None \<Rightarrow> None
      | Some (visited, parent, path_found_end_node) \<Rightarrow>
          if path_found_end_node \<noteq> -1
          then (case print_path parent (int start_node) path_found_end_node of
                  None \<Rightarrow> None
                | Some out \<Rightarrow> Some (parent, path_found_end_node, out))
          else Some (parent, path_found_end_node, No_path))"

text \<open>
  DFS. The first argument bounds the depth of the recursion (the call stack); \<open>None\<close>
  is a recursion deeper than that. \<open>dfs_neighbors\<close> is the loop over the adjacency
  list inside \<open>dfs_recursive\<close>; the state is \<open>(visited, parent)\<close>.
\<close>

fun dfs_recursive :: "nat \<Rightarrow> Graph \<Rightarrow> nat \<Rightarrow> nat \<Rightarrow> bool list \<times> int list \<Rightarrow> (bool \<times> bool list \<times> int list) option"
  and dfs_neighbors :: "nat \<Rightarrow> Graph \<Rightarrow> nat \<Rightarrow> nat \<Rightarrow> nat list \<Rightarrow> bool list \<times> int list \<Rightarrow> (bool \<times> bool list \<times> int list) option" where
  "dfs_recursive 0 g current_node end_node st = None"
| "dfs_recursive (Suc d) g current_node end_node st =
     (let visited = (fst st)[current_node := True] in
      if current_node = end_node then Some (True, visited, snd st)
      else dfs_neighbors d g current_node end_node (adj_lists g ! current_node) (visited, snd st))"
| "dfs_neighbors d g current_node end_node [] st = Some (False, st)"
| "dfs_neighbors d g current_node end_node (neighbor # rest) st =
     (if \<not> fst st ! neighbor then
        (case dfs_recursive d g neighbor end_node (fst st, (snd st)[neighbor := int current_node]) of
           None \<Rightarrow> None
         | Some r \<Rightarrow>
             if fst r then Some (True, snd r)
             else dfs_neighbors d g current_node end_node rest (snd r))
      else dfs_neighbors d g current_node end_node rest st)"

text \<open>\<open>dfs\<close> gives back \<open>parent\<close>, whether the end node was found, and what it printed.\<close>

definition dfs :: "nat \<Rightarrow> Graph \<Rightarrow> nat \<Rightarrow> nat \<Rightarrow> (int list \<times> bool \<times> path_output) option" where
  "dfs depth g start_node end_node =
     (case dfs_recursive depth g start_node end_node
             (replicate (num_nodes g) False, replicate (num_nodes g) (-1)) of
        None \<Rightarrow> None
      | Some (found, visited, parent) \<Rightarrow>
          if found
          then (case print_path parent (int start_node) (int end_node) of
                  None \<Rightarrow> None
                | Some out \<Rightarrow> Some (parent, True, out))
          else Some (parent, False, No_path))"

section \<open>Vocabulary of the properties\<close>

text \<open>
  A well-formed graph has one adjacency list per node, and every stored destination is
  a node. A maze graph also has at most \<open>MAX_NODES\<close> nodes, the maximum the maze
  program declares: its \<open>bfs\<close> and \<open>dfs\<close> print the path through an array of that size.
  In the transit program the maximum matters to \<open>print_path\<close> alone, and is stated
  where \<open>print_path\<close> is used.
\<close>

definition wf_graph :: "Graph \<Rightarrow> bool" where
  "wf_graph g \<longleftrightarrow>
     num_nodes g \<le> MAX_NODES \<and> length (adj_lists g) = num_nodes g \<and>
     (\<forall>l \<in> set (adj_lists g). \<forall>v \<in> set l. v < num_nodes g)"

definition wf_graph_p2 :: "Graph_p2 \<Rightarrow> bool" where
  "wf_graph_p2 g \<longleftrightarrow>
     length (adj_lists_p2 g) = num_nodes_p2 g \<and>
     (\<forall>l \<in> set (adj_lists_p2 g). \<forall>e \<in> set l. fst e < num_nodes_p2 g)"

text \<open>The directed edges of a graph, as a relation on nodes.\<close>

definition edges :: "Graph \<Rightarrow> (nat \<times> nat) set" where
  "edges g = {(u, v). u < num_nodes g \<and> v \<in> set (adj_lists g ! u)}"

definition edges_p2 :: "Graph_p2 \<Rightarrow> (nat \<times> nat) set" where
  "edges_p2 g = {(u, v). u < num_nodes_p2 g \<and> v \<in> fst ` set (adj_lists_p2 g ! u)}"




text \<open>The set of nodes marked in a \<open>visited\<close> array.\<close>

definition vset :: "bool list \<Rightarrow> nat set" where
  "vset visited = {i. i < length visited \<and> visited ! i}"

text \<open>The number of nodes not yet marked.\<close>

definition unvisited_count :: "bool list \<Rightarrow> nat" where
  "unvisited_count visited = length visited - card (vset visited)"

text \<open>
  A predecessor array is a tree below \<open>s\<close> over the marked nodes \<open>A\<close>: the source has
  no predecessor, every other predecessor entry is a marked node that is the source or
  has a predecessor itself, the link is an edge, and the depth \<open>L\<close> grows by one along it.
\<close>

definition tree_inv :: "nat \<Rightarrow> nat \<Rightarrow> (nat \<times> nat) set \<Rightarrow> nat set \<Rightarrow> int list \<Rightarrow> (nat \<Rightarrow> nat) \<Rightarrow> bool" where
  "tree_inv n s E A P L \<longleftrightarrow>
     length P = n \<and> s \<in> A \<and> A \<subseteq> {..<n} \<and> P ! s = -1 \<and> L s = 0 \<and>
     (\<forall>v<n. L v \<le> card A) \<and> (\<forall>v\<in>A. L v < card A) \<and>
     (\<forall>v<n. P ! v \<noteq> -1 \<longrightarrow>
        (\<exists>u\<in>A. P ! v = int u \<and> (u = s \<or> P ! u \<noteq> -1) \<and> (u, v) \<in> E \<and> L v = Suc (L u)))"

text \<open>The backward walk \<open>current = parent[current]\<close>, \<open>k\<close> times, staying at \<open>-1\<close>.\<close>

fun pred_walk :: "int list \<Rightarrow> nat \<Rightarrow> int \<Rightarrow> int" where
  "pred_walk parent 0 current = current"
| "pred_walk parent (Suc k) current =
     (if current = -1 then -1 else pred_walk parent k (parent ! nat current))"

text \<open>A sequence of nodes whose consecutive members are linked by \<open>parent\<close> and by an edge.\<close>

definition linked_path :: "(nat \<times> nat) set \<Rightarrow> int list \<Rightarrow> nat list \<Rightarrow> bool" where
  "linked_path E parent xs \<longleftrightarrow>
     (\<forall>i. Suc i < length xs \<longrightarrow>
        parent ! (xs ! Suc i) = int (xs ! i) \<and> (xs ! i, xs ! Suc i) \<in> E)"

section \<open>Invariants of the loops\<close>

text \<open>
  What holds of the state \<open>(dist, visited, parent)\<close> of Dijkstra's main loop, whatever the
  weights: the predecessor array is a tree over the settled nodes, a node with a known
  distance is the source or has a predecessor, and before the first selection only the
  source has a known distance.
\<close>

definition dj_struct :: "Graph_p2 \<Rightarrow> nat \<Rightarrow> int list \<times> bool list \<times> int list \<Rightarrow> (nat \<Rightarrow> nat) \<Rightarrow> bool" where
  "dj_struct g s st L \<longleftrightarrow>
     (let dist = fst st; visited = fst (snd st); parent = snd (snd st); n = num_nodes_p2 g in
      length dist = n \<and> length visited = n \<and>
      tree_inv n s (edges_p2 g) (insert s (vset visited)) parent L \<and>
      (\<forall>v<n. dist ! v \<noteq> INFINITY \<longrightarrow> v = s \<or> parent ! v \<noteq> -1) \<and>
      (s \<notin> vset visited \<longrightarrow> dist ! s = 0 \<and> (\<forall>v<n. v \<noteq> s \<longrightarrow> dist ! v = INFINITY)))"


text \<open>
  What holds of the state \<open>(visited, parent, q)\<close> of BFS at the head of the outer loop,
  with \<open>L\<close> the depth in the predecessor tree: the queue holds visited nodes in order of
  depth, spanning at most two depths; the nodes already expanded (visited, not in the
  queue) are no deeper than the queue, their neighbours are visited and at most one
  deeper; the end node has not been expanded.
\<close>

definition bfs_inv :: "Graph \<Rightarrow> nat \<Rightarrow> nat \<Rightarrow> bool list \<times> int list \<times> nat list \<Rightarrow> (nat \<Rightarrow> nat) \<Rightarrow> bool" where
  "bfs_inv g s t st L \<longleftrightarrow>
     (let visited = fst st; parent = fst (snd st); q = snd (snd st); n = num_nodes g;
          V = vset visited in
      length visited = n \<and> tree_inv n s (edges g) V parent L \<and>
      set q \<subseteq> V \<and> distinct q \<and>
      (\<forall>v\<in>V. v = s \<or> parent ! v \<noteq> -1) \<and>
      (\<forall>v<n. parent ! v \<noteq> -1 \<longrightarrow> v \<in> V) \<and>
      sorted_wrt (\<lambda>a b. L a \<le> L b) q \<and> (\<forall>x\<in>set q. L x \<le> Suc (L (hd q))) \<and>
      (\<forall>x\<in>V - set q. \<forall>y\<in>set q. L x \<le> L y) \<and>
      (\<forall>x\<in>V - set q. \<forall>y. (x, y) \<in> edges g \<longrightarrow> y \<in> V \<and> L y \<le> Suc (L x)) \<and>
      t \<notin> V - set q)"

text \<open>
  The same inside the loop over the adjacency list of the dequeued node \<open>u\<close>, with
  \<open>rest\<close> the entries still to come.
\<close>

definition bfs_inner :: "Graph \<Rightarrow> nat \<Rightarrow> nat \<Rightarrow> nat \<Rightarrow> nat list \<Rightarrow> bool list \<times> int list \<times> nat list \<Rightarrow> (nat \<Rightarrow> nat) \<Rightarrow> bool" where
  "bfs_inner g s t u rest st L \<longleftrightarrow>
     (let visited = fst st; parent = fst (snd st); q = snd (snd st); n = num_nodes g;
          V = vset visited in
      length visited = n \<and> tree_inv n s (edges g) V parent L \<and>
      set q \<subseteq> V \<and> distinct q \<and> u \<in> V \<and> u \<notin> set q \<and> u \<noteq> t \<and>
      (\<forall>v\<in>V. v = s \<or> parent ! v \<noteq> -1) \<and>
      (\<forall>v<n. parent ! v \<noteq> -1 \<longrightarrow> v \<in> V) \<and>
      sorted_wrt (\<lambda>a b. L a \<le> L b) q \<and> (\<forall>x\<in>set q. L u \<le> L x \<and> L x \<le> Suc (L u)) \<and>
      (\<forall>x\<in>V - set q. L x \<le> L u) \<and>
      (\<forall>x\<in>V - set q - {u}. \<forall>y. (x, y) \<in> edges g \<longrightarrow> y \<in> V \<and> L y \<le> Suc (L x)) \<and>
      (\<forall>y\<in>set (adj_lists g ! u) - set rest. y \<in> V \<and> L y \<le> Suc (L u)) \<and>
      t \<notin> V - set q - {u})"

text \<open>The quantity that falls with every iteration of the outer loop of BFS.\<close>

definition bfs_measure :: "bool list \<times> int list \<times> nat list \<Rightarrow> nat" where
  "bfs_measure st = (length (fst st) - card (vset (fst st))) + length (snd (snd st))"

text \<open>
  What holds of the result \<open>(visited, parent, path_found_end_node)\<close> of the BFS loop: the
  predecessor array is a tree over the visited nodes, and either the end node was
  dequeued, hangs in the tree and no path from the source reaches it in fewer edges than
  its depth, or it was not found, is not reachable and has no predecessor.
\<close>

definition bfs_post :: "Graph \<Rightarrow> nat \<Rightarrow> nat \<Rightarrow> bool list \<times> int list \<times> int \<Rightarrow> (nat \<Rightarrow> nat) \<Rightarrow> bool" where
  "bfs_post g s t r L \<longleftrightarrow>
     (let visited = fst r; parent = fst (snd r); found = snd (snd r) in
      tree_inv (num_nodes g) s (edges g) (vset visited) parent L \<and>
      (found = int t \<and> (t = s \<or> parent ! t \<noteq> -1) \<and> (\<forall>m. (s, t) \<in> edges g ^^ m \<longrightarrow> L t \<le> m)
       \<or> found = -1 \<and> (s, t) \<notin> (edges g)\<^sup>* \<and> parent ! t = -1))"

text \<open>
  What holds of the state \<open>(visited, parent)\<close> of DFS between two steps: the predecessor
  array is a tree over the visited nodes, every visited node is the source or has a
  predecessor, and only visited nodes have one.
\<close>

definition dfs_inv :: "Graph \<Rightarrow> nat \<Rightarrow> bool list \<times> int list \<Rightarrow> (nat \<Rightarrow> nat) \<Rightarrow> bool" where
  "dfs_inv g s st L \<longleftrightarrow>
     length (fst st) = num_nodes g \<and>
     tree_inv (num_nodes g) s (edges g) (vset (fst st)) (snd st) L \<and>
     (\<forall>v\<in>vset (fst st). v = s \<or> snd st ! v \<noteq> -1) \<and>
     (\<forall>v<num_nodes g. snd st ! v \<noteq> -1 \<longrightarrow> v \<in> vset (fst st))"

text \<open>
  What holds of the result \<open>(found, visited, parent)\<close> of a DFS call entered with the
  array \<open>visited0\<close>: nothing is unmarked; on success the end node is visited; on failure
  the end node is not among the newly visited nodes, and all neighbours of the newly
  visited nodes are visited.
\<close>

definition dfs_post :: "Graph \<Rightarrow> nat \<Rightarrow> nat \<Rightarrow> bool list \<Rightarrow> bool \<times> bool list \<times> int list \<Rightarrow> (nat \<Rightarrow> nat) \<Rightarrow> bool" where
  "dfs_post g s t visited0 r L \<longleftrightarrow>
     dfs_inv g s (snd r) L \<and> vset visited0 \<subseteq> vset (fst (snd r)) \<and>
     (fst r \<longrightarrow> t \<in> vset (fst (snd r))) \<and>
     (\<not> fst r \<longrightarrow> t \<notin> vset (fst (snd r)) - vset visited0 \<and>
        (\<forall>x\<in>vset (fst (snd r)) - vset visited0. \<forall>y. (x, y) \<in> edges g \<longrightarrow> y \<in> vset (fst (snd r))))"

section \<open>Concrete graphs used for evaluation\<close>

text \<open>
  Transit networks, built with the program's own constructors: three stops without
  connections; four stops where stops 1 and 2 are both 5 away from stop 0 and both one
  step from stop 3; the network A \<rightarrow> B (10), B \<rightarrow> C (5), A \<rightarrow> C (20); a network whose
  second weight is \<open>INT_MAX\<close>; and a network of two stops, the first of them named.
\<close>

definition net_empty3 :: Graph_p2 where
  "net_empty3 = create_graph_p2 3"

definition net_ties :: Graph_p2 where
  "net_ties =
     add_edge_p2 (add_edge_p2 (add_edge_p2 (add_edge_p2 (create_graph_p2 4) 2 3 1) 1 3 1) 0 2 5) 0 1 5"

definition net_abc :: Graph_p2 where
  "net_abc = add_edge_p2 (add_edge_p2 (add_edge_p2 (create_graph_p2 3) 0 1 10) 1 2 5) 0 2 20"


definition net_named :: Graph_p2 where
  "net_named =
     \<lparr>num_nodes_p2 = 2, adj_lists_p2 = [[], []], node_names = [Some ''Centro'', None]\<rparr>"

text \<open>
  A maze graph of five nodes: the square 0 - 1 - 2 - 3 - 0 and the isolated node 4.
\<close>

definition maze_sq :: Graph where
  "maze_sq = add_edge (add_edge (add_edge (add_edge (create_graph 5) 0 1) 1 2) 0 3) 3 2"

section \<open>Naming a node\<close>

text \<open>
  C9. \<open>set_node_name\<close> with an index outside \<open>[0, num_nodes)\<close> reports the error,
  returns (the process goes on) and leaves the graph as it was; with an index in range
  (and the copy allocated) it returns the graph whose slot for that node holds the new
  name, whatever the slot held before, and nothing else changed.
\<close>

theorem set_node_name_contract:
  "(node_index < 0 \<or> int (num_nodes_p2 g) \<le> node_index \<longrightarrow>
      set_node_name malloc_ok g node_index name = Returned g [Err_invalid_node_index]) \<and>
   (0 \<le> node_index \<and> node_index < int (num_nodes_p2 g) \<and> length (node_names g) = num_nodes_p2 g \<longrightarrow>
      (\<exists>g'. set_node_name True g node_index name = Returned g' [] \<and>
            node_names g' ! nat node_index = Some name \<and>
            (\<forall>i. i \<noteq> nat node_index \<longrightarrow> node_names g' ! i = node_names g ! i) \<and>
            num_nodes_p2 g' = num_nodes_p2 g \<and> adj_lists_p2 g' = adj_lists_p2 g))"
  by (auto simp: set_node_name_def)

theorem set_node_name_contract_witness:
  "set_node_name True net_named 2 ''Praia'' = Returned net_named [Err_invalid_node_index] \<and>
   set_node_name True net_named (-1) ''Praia'' = Returned net_named [Err_invalid_node_index] \<and>
   (\<exists>g'. set_node_name True net_named 0 ''Praia'' = Returned g' [] \<and>
         node_names g' ! 0 = Some ''Praia'' \<and> node_names g' ! 1 = None \<and>
         num_nodes_p2 g' = 2 \<and> adj_lists_p2 g' = [[], []])"
proof -
  have n: "num_nodes_p2 net_named = 2" "length (node_names net_named) = 2"
    "node_names net_named ! 1 = None" "adj_lists_p2 net_named = [[], []]"
    by (simp_all add: net_named_def)
  from set_node_name_contract [of 2 net_named True "''Praia''"] n
  have a: "set_node_name True net_named 2 ''Praia'' = Returned net_named [Err_invalid_node_index]"
    by simp
  from set_node_name_contract [of "-1" net_named True "''Praia''"]
  have b: "set_node_name True net_named (-1) ''Praia'' = Returned net_named [Err_invalid_node_index]"
    by simp
  from set_node_name_contract [of 0 net_named True "''Praia''"] n
  obtain g' where g': "set_node_name True net_named 0 ''Praia'' = Returned g' []"
    "node_names g' ! nat 0 = Some ''Praia''"
    "\<forall>i. i \<noteq> nat 0 \<longrightarrow> node_names g' ! i = node_names net_named ! i"
    "num_nodes_p2 g' = num_nodes_p2 net_named" "adj_lists_p2 g' = adj_lists_p2 net_named"
    by auto
  from g'(3) n have "node_names g' ! 1 = None" by simp
  with g' n a b show ?thesis by simp
qed

section \<open>The minimum scan of Dijkstra\<close>

lemma min_scan_fold:
  "fold (min_scan_step dist visited) [0..<k] (INFINITY, -1) = (m, u) \<Longrightarrow>
     (u = -1 \<and> m = INFINITY \<and> (\<forall>v<k. visited ! v \<or> INFINITY < dist ! v)) \<or>
     (\<exists>j<k. u = int j \<and> \<not> visited ! j \<and> dist ! j = m \<and> m \<le> INFINITY \<and>
        (\<forall>v<k. \<not> visited ! v \<longrightarrow> m \<le> dist ! v \<and> (dist ! v = m \<longrightarrow> v \<le> j)))"
proof (induction k arbitrary: m u)
  case 0
  then show ?case by simp
next
  case (Suc k)
  obtain m' u' where f: "fold (min_scan_step dist visited) [0..<k] (INFINITY, -1) = (m', u')"
    by (cases "fold (min_scan_step dist visited) [0..<k] (INFINITY, -1)") auto
  note ih = Suc.IH [OF f]
  from Suc.prems f have st: "min_scan_step dist visited k (m', u') = (m, u)"
    by simp
  show ?case
  proof (cases "\<not> visited ! k \<and> dist ! k \<le> m'")
    case True
    with st have mu: "m = dist ! k" "u = int k" by (auto simp: min_scan_step_def)
    from ih True have le: "dist ! k \<le> INFINITY" by auto
    have "\<forall>v<Suc k. \<not> visited ! v \<longrightarrow> m \<le> dist ! v \<and> (dist ! v = m \<longrightarrow> v \<le> k)"
      using ih True mu by (auto simp: less_Suc_eq)
    with True mu le show ?thesis by auto
  next
    case False
    with st have mu: "m = m'" "u = u'" by (auto simp: min_scan_step_def)
    from ih show ?thesis
    proof
      assume "u' = -1 \<and> m' = INFINITY \<and> (\<forall>v<k. visited ! v \<or> INFINITY < dist ! v)"
      with False mu show ?thesis by (auto simp: less_Suc_eq)
    next
      assume "\<exists>j<k. u' = int j \<and> \<not> visited ! j \<and> dist ! j = m' \<and> m' \<le> INFINITY \<and>
        (\<forall>v<k. \<not> visited ! v \<longrightarrow> m' \<le> dist ! v \<and> (dist ! v = m' \<longrightarrow> v \<le> j))"
      then obtain j where j: "j < k" "u' = int j" "\<not> visited ! j" "dist ! j = m'" "m' \<le> INFINITY"
        "\<forall>v<k. \<not> visited ! v \<longrightarrow> m' \<le> dist ! v \<and> (dist ! v = m' \<longrightarrow> v \<le> j)" by blast
      have "\<forall>v<Suc k. \<not> visited ! v \<longrightarrow> m' \<le> dist ! v \<and> (dist ! v = m' \<longrightarrow> v \<le> j)"
        using j False by (auto simp: less_Suc_eq)
      with j mu show ?thesis by (intro disjI2 exI[of _ j]) auto
    qed
  qed
qed

lemma min_scan_cases:
  "(snd (min_scan n dist visited) = -1 \<and> (\<forall>v<n. visited ! v \<or> INFINITY < dist ! v)) \<or>
   (\<exists>j<n. snd (min_scan n dist visited) = int j \<and> \<not> visited ! j \<and> dist ! j \<le> INFINITY \<and>
        (\<forall>v<n. \<not> visited ! v \<longrightarrow> dist ! j \<le> dist ! v \<and> (dist ! v = dist ! j \<longrightarrow> v \<le> j)))"
proof -
  obtain m u where f: "fold (min_scan_step dist visited) [0..<n] (INFINITY, -1) = (m, u)"
    by (cases "fold (min_scan_step dist visited) [0..<n] (INFINITY, -1)") auto
  from min_scan_fold [OF f] f show ?thesis
    unfolding min_scan_def by auto
qed

lemma min_scan_some:
  assumes "v0 < n" "\<not> visited ! v0" "dist ! v0 \<le> INFINITY"
  shows "\<exists>j<n. snd (min_scan n dist visited) = int j \<and> \<not> visited ! j \<and> dist ! j \<le> INFINITY \<and>
        (\<forall>v<n. \<not> visited ! v \<longrightarrow> dist ! j \<le> dist ! v \<and> (dist ! v = dist ! j \<longrightarrow> v \<le> j))"
  using min_scan_cases [of n dist visited] assms by (auto simp: not_less)

text \<open>
  C5 (as the code has it). At a selection step with an unsettled node of known distance,
  the main loop settles an unsettled node \<open>u\<close> of minimum distance and goes on from
  there; among the unsettled nodes tied for that minimum, \<open>u\<close> is the one with the
  highest index (the scan compares with \<open>\<le>\<close>, so the last minimum found stays).
\<close>

theorem dijkstra_selects_last_minimum:
  assumes "v0 < num_nodes_p2 g" "\<not> visited ! v0" "dist ! v0 < INFINITY"
  shows "\<exists>u<num_nodes_p2 g.
           snd (min_scan (num_nodes_p2 g) dist visited) = int u \<and>
           \<not> visited ! u \<and>
           (\<forall>v<num_nodes_p2 g. \<not> visited ! v \<longrightarrow> dist ! u \<le> dist ! v) \<and>
           (\<forall>v<num_nodes_p2 g. \<not> visited ! v \<and> dist ! v = dist ! u \<longrightarrow> v \<le> u) \<and>
           dijkstra_loop (Suc k) g (dist, visited, parent) =
             dijkstra_loop k g
               (fst (relax u (visited[u := True]) (adj_lists_p2 g ! u) (dist, parent)),
                visited[u := True],
                snd (relax u (visited[u := True]) (adj_lists_p2 g ! u) (dist, parent)))"
proof -
  from assms have "dist ! v0 \<le> INFINITY" by simp
  from min_scan_some [OF assms(1,2) this]
  obtain j where j: "j < num_nodes_p2 g" "snd (min_scan (num_nodes_p2 g) dist visited) = int j"
    "\<not> visited ! j"
    "\<forall>v<num_nodes_p2 g. \<not> visited ! v \<longrightarrow> dist ! j \<le> dist ! v \<and> (dist ! v = dist ! j \<longrightarrow> v \<le> j)"
    by blast
  have "dijkstra_loop (Suc k) g (dist, visited, parent) =
             dijkstra_loop k g
               (fst (relax j (visited[j := True]) (adj_lists_p2 g ! j) (dist, parent)),
                visited[j := True],
                snd (relax j (visited[j := True]) (adj_lists_p2 g ! j) (dist, parent)))"
    using j(2) by (simp add: Let_def)
  with j show ?thesis by blast
qed

theorem dijkstra_selects_last_minimum_witness:
  "\<exists>u<4. snd (min_scan 4 [0, 5, 5, INFINITY] [True, False, False, False]) = int u \<and>
          (\<forall>v<4. \<not> [True, False, False, False] ! v \<and> [0, 5, 5, INFINITY] ! v = [0, 5, 5, INFINITY] ! u
                 \<longrightarrow> v \<le> u)"
proof -
  have n: "num_nodes_p2 net_ties = 4"
    by (simp add: net_ties_def add_edge_p2_def create_graph_p2_def)
  have h: "(1::nat) < num_nodes_p2 net_ties" "\<not> [True, False, False, False] ! 1"
    "[0, 5, 5, INFINITY] ! 1 < INFINITY"
    by (simp_all add: n INFINITY_def)
  from dijkstra_selects_last_minimum [OF h, of 0 "[-1, 0, 0, -1]"] show ?thesis
    unfolding n by blast
qed

text \<open>
  The claim as the specification words it (lowest index among ties) fails: after the
  first iteration on \<open>net_ties\<close> the nodes 1 and 2 are unsettled and tied at distance 5,
  and the scan selects node 2; the run ends with node 3 hanging below node 2.
\<close>

theorem dijkstra_lowest_index_counterexample:
  "dijkstra_loop 1 net_ties (dijkstra_init net_ties 0) =
     ([0, 5, 5, INFINITY], [True, False, False, False], [-1, 0, 0, -1]) \<and>
   snd (min_scan 4 [0, 5, 5, INFINITY] [True, False, False, False]) = 2 \<and>
   \<not> [True, False, False, False] ! 1 \<and>
   [0, 5, 5, INFINITY] ! 1 = [0, 5, 5, INFINITY] ! 2 \<and>
   dijkstra net_ties 0 = ([0, 5, 5, 6], [-1, 0, 0, 2])"
  by code_simp

text \<open>
  C6. The claim: once every unsettled node is at distance \<open>INFINITY\<close>, the main loop
  stops and settles no further node (the source says so beside its \<open>break\<close>). The code
  at that point: on the graph of three nodes without edges, from source 0, the state
  after the first iteration has both unsettled nodes at distance \<open>INFINITY\<close>; the scan
  still returns a node (2, not \<open>-1\<close>), the loop does not stop there, and the run ends with
  node 2 settled.
\<close>

theorem dijkstra_no_early_stop:
  "dijkstra_loop 1 net_empty3 (dijkstra_init net_empty3 0) =
     ([0, INFINITY, INFINITY], [True, False, False], [-1, -1, -1]) \<and>
   snd (min_scan 3 [0, INFINITY, INFINITY] [True, False, False]) = 2 \<and>
   dijkstra_run net_empty3 0 = ([0, INFINITY, INFINITY], [True, False, True], [-1, -1, -1])"
  by code_simp

section \<open>Marked nodes and predecessor trees\<close>

lemma vset_update:
  "v < length visited \<Longrightarrow> vset (visited[v := True]) = insert v (vset visited)"
  by (auto simp: vset_def nth_list_update)

lemma vset_finite: "finite (vset visited)"
  by (simp add: vset_def)


lemma vset_replicate: "vset (replicate n False) = {}"
  by (auto simp: vset_def)

lemma vset_mem: "v \<in> vset visited \<longleftrightarrow> v < length visited \<and> visited ! v"
  by (simp add: vset_def)

lemma vset_card_less:
  assumes "v < length visited" "\<not> visited ! v"
  shows "card (vset visited) < length visited"
proof -
  from assms have "vset visited \<subseteq> {..<length visited} - {v}" by (auto simp: vset_def)
  then have "card (vset visited) \<le> card ({..<length visited} - {v})" by (intro card_mono) auto
  also have "\<dots> < length visited" using assms by (simp add: card_Diff_singleton_if)
  finally show ?thesis .
qed


lemma unvisited_count_pos:
  "v < length visited \<Longrightarrow> \<not> visited ! v \<Longrightarrow> 0 < unvisited_count visited"
  using vset_card_less [of v visited] by (simp add: unvisited_count_def)

lemma unvisited_count_mark:
  assumes "v < length visited" "\<not> visited ! v"
  shows "Suc (unvisited_count (visited[v := True])) = unvisited_count visited"
proof -
  from assms have "v \<notin> vset visited" by (simp add: vset_def)
  then have "card (vset (visited[v := True])) = Suc (card (vset visited))"
    using assms by (simp add: vset_update vset_finite)
  with vset_card_less [OF assms] show ?thesis by (simp add: unvisited_count_def)
qed

lemma unvisited_count_mono:
  assumes "vset visited \<subseteq> vset visited'" "length visited = length visited'"
  shows "unvisited_count visited' \<le> unvisited_count visited"
proof -
  from assms(1) have "card (vset visited) \<le> card (vset visited')"
    by (intro card_mono vset_finite)
  with assms(2) show ?thesis by (simp add: unvisited_count_def)
qed


lemma closed_reach:
  assumes "s \<in> V" "\<forall>x\<in>V. \<forall>y. (x, y) \<in> E \<longrightarrow> y \<in> V"
  shows "(s, v) \<in> E\<^sup>* \<Longrightarrow> v \<in> V"
proof (induction rule: rtrancl_induct)
  case base
  from assms(1) show ?case .
next
  case (step y z)
  with assms(2) show ?case by blast
qed

lemma tree_inv_init:
  "s < n \<Longrightarrow> tree_inv n s E {s} (replicate n (-1)) (\<lambda>_. 0)"
  by (simp add: tree_inv_def)

lemma tree_inv_assign:
  assumes t: "tree_inv n s E A P L" and v: "v < n" "v \<notin> A"
    and u: "u \<in> A" "u = s \<or> P ! u \<noteq> -1" "(u, v) \<in> E"
  shows "tree_inv n s E A (P[v := int u]) (L(v := Suc (L u)))"
proof -
  from t have len: "length P = n" and sA: "s \<in> A" and An: "A \<subseteq> {..<n}"
    and Ps: "P ! s = -1" and Ls: "L s = 0"
    and b1: "\<forall>v<n. L v \<le> card A" and b2: "\<forall>v\<in>A. L v < card A"
    and links: "\<forall>v<n. P ! v \<noteq> -1 \<longrightarrow>
        (\<exists>u\<in>A. P ! v = int u \<and> (u = s \<or> P ! u \<noteq> -1) \<and> (u, v) \<in> E \<and> L v = Suc (L u))"
    by (auto simp: tree_inv_def)
  from v sA u have ne: "v \<noteq> s" "v \<noteq> u" by auto
  have "\<forall>x<n. (P[v := int u]) ! x \<noteq> -1 \<longrightarrow>
        (\<exists>y\<in>A. (P[v := int u]) ! x = int y \<and> (y = s \<or> (P[v := int u]) ! y \<noteq> -1) \<and> (y, x) \<in> E \<and>
               (L(v := Suc (L u))) x = Suc ((L(v := Suc (L u))) y))"
  proof (intro allI impI)
    fix x assume x: "x < n" "(P[v := int u]) ! x \<noteq> -1"
    show "\<exists>y\<in>A. (P[v := int u]) ! x = int y \<and> (y = s \<or> (P[v := int u]) ! y \<noteq> -1) \<and> (y, x) \<in> E \<and>
               (L(v := Suc (L u))) x = Suc ((L(v := Suc (L u))) y)"
    proof (cases "x = v")
      case True
      with u ne len v show ?thesis by (intro bexI[of _ u]) auto
    next
      case False
      with x len have "P ! x \<noteq> -1" by simp
      with links x obtain y where y: "y \<in> A" "P ! x = int y" "y = s \<or> P ! y \<noteq> -1" "(y, x) \<in> E"
        "L x = Suc (L y)" by blast
      from y v have "y \<noteq> v" by auto
      with y False len show ?thesis by (intro bexI[of _ y]) auto
    qed
  qed
  moreover have "\<forall>x<n. (L(v := Suc (L u))) x \<le> card A"
    using b1 b2 u by (auto simp: Suc_le_eq)
  moreover have "\<forall>x\<in>A. (L(v := Suc (L u))) x < card A"
    using b2 v by auto
  ultimately show ?thesis
    using len sA An Ps Ls ne by (simp add: tree_inv_def)
qed

lemma tree_inv_add:
  assumes t: "tree_inv n s E A P L" and v: "v < n"
  shows "tree_inv n s E (insert v A) P L"
proof -
  from t have An: "A \<subseteq> {..<n}" by (simp add: tree_inv_def)
  then have fin: "finite A" by (rule finite_subset) simp
  have c: "card A \<le> card (insert v A)" using fin by (simp add: card_insert_le)
  have c2: "v \<notin> A \<Longrightarrow> card A < card (insert v A)" using fin by simp
  from t have b1: "\<forall>v<n. L v \<le> card A" and b2: "\<forall>v\<in>A. L v < card A"
    by (auto simp: tree_inv_def)
  have "\<forall>x<n. L x \<le> card (insert v A)" using b1 c by (meson le_trans)
  moreover have "\<forall>x\<in>insert v A. L x < card (insert v A)"
  proof
    fix x assume "x \<in> insert v A"
    show "L x < card (insert v A)"
    proof (cases "x \<in> A")
      case True
      with b2 c show ?thesis by (meson less_le_trans)
    next
      case False
      with \<open>x \<in> insert v A\<close> have "x = v" by simp
      with False b1 v c2 show ?thesis by (meson le_less_trans)
    qed
  qed
  ultimately show ?thesis
    using t v by (auto simp: tree_inv_def)
qed

lemma tree_inv_depth_bound:
  assumes t: "tree_inv n s E A P L" and v: "v < n"
  shows "L v < n"
proof -
  from t have An: "A \<subseteq> {..<n}" and b1: "\<forall>v<n. L v \<le> card A" and b2: "\<forall>v\<in>A. L v < card A"
    by (auto simp: tree_inv_def)
  have cn: "card A \<le> n" using An subset_eq_atLeast0_lessThan_card
    by (metis atLeast0LessThan)
  show ?thesis
  proof (cases "v \<in> A")
    case True
    with b2 cn show ?thesis by (meson less_le_trans)
  next
    case False
    with An v have "A \<subseteq> {..<n} - {v}" by auto
    then have "card A \<le> card ({..<n} - {v})" by (intro card_mono) auto
    also have "\<dots> < n" using v by (simp add: card_Diff_singleton_if)
    finally have "card A < n" .
    with b1 v show ?thesis by (meson le_less_trans)
  qed
qed

lemma tree_inv_reach:
  assumes t: "tree_inv n s E A P L"
  shows "v < n \<Longrightarrow> v = s \<or> P ! v \<noteq> -1 \<Longrightarrow> L v = k \<Longrightarrow> (s, v) \<in> E ^^ k"
proof (induction k arbitrary: v)
  case 0
  with t show ?case by (auto simp: tree_inv_def)
next
  case (Suc k)
  from t Suc.prems have "v \<noteq> s" by (auto simp: tree_inv_def)
  with Suc.prems have "P ! v \<noteq> -1" by simp
  with t Suc.prems obtain u where u: "u \<in> A" "P ! v = int u" "u = s \<or> P ! u \<noteq> -1" "(u, v) \<in> E"
    "L v = Suc (L u)" unfolding tree_inv_def by blast
  from t u have "u < n" by (auto simp: tree_inv_def)
  with Suc.IH [of u] u Suc.prems have "(s, u) \<in> E ^^ k" by simp
  with u show ?case by auto
qed

section \<open>The path printers on predecessor trees\<close>

lemma linked_path_snoc:
  assumes "linked_path E P ys" "ys \<noteq> []" "P ! v = int (last ys)" "(last ys, v) \<in> E"
  shows "linked_path E P (ys @ [v])"
  unfolding linked_path_def
proof (intro allI impI)
  fix i assume i: "Suc i < length (ys @ [v])"
  show "P ! ((ys @ [v]) ! Suc i) = int ((ys @ [v]) ! i) \<and> ((ys @ [v]) ! i, (ys @ [v]) ! Suc i) \<in> E"
  proof (cases "Suc i < length ys")
    case True
    with assms(1) show ?thesis by (simp add: linked_path_def nth_append)
  next
    case False
    with i have e: "Suc i = length ys" by simp
    then have i': "i = length ys - 1" by simp
    have "(ys @ [v]) ! Suc i = v" "(ys @ [v]) ! i = last ys"
      using assms(2) e by (simp_all add: nth_append last_conv_nth i')
    with assms show ?thesis by simp
  qed
qed

lemma path_loop_stop:
  "current = -1 \<or> current = start_node \<Longrightarrow> path_loop f P start_node current acc = Some acc"
  by (cases f) auto

lemma path_loop_tree:
  assumes t: "tree_inv n s E A P L"
  shows "v < n \<Longrightarrow> v = s \<or> P ! v \<noteq> -1 \<Longrightarrow> L v = k \<Longrightarrow> k \<le> f \<Longrightarrow>
         \<exists>xs. path_loop f P (int s) (int v) acc = Some (acc @ map int xs) \<and> length xs = k \<and>
              linked_path E P (s # rev xs) \<and> last (s # rev xs) = v \<and> set xs \<subseteq> {..<n}"
proof (induction k arbitrary: v f acc)
  case 0
  with t have "v = s" by (auto simp: tree_inv_def)
  then show ?case
    by (intro exI[of _ "[]"]) (simp add: path_loop_stop linked_path_def)
next
  case (Suc k)
  from t Suc.prems have vs: "v \<noteq> s" by (auto simp: tree_inv_def)
  with Suc.prems have "P ! v \<noteq> -1" by simp
  with t Suc.prems obtain u where u: "u \<in> A" "P ! v = int u" "u = s \<or> P ! u \<noteq> -1" "(u, v) \<in> E"
    "L v = Suc (L u)" unfolding tree_inv_def by blast
  from t u have un: "u < n" by (auto simp: tree_inv_def)
  from Suc.prems obtain f' where f: "f = Suc f'" "k \<le> f'" by (cases f) auto
  from u Suc.prems have Lu: "L u = k" by simp
  from Suc.IH [OF un u(3) Lu f(2), of "acc @ [int v]"]
  obtain xs where xs: "path_loop f' P (int s) (int u) (acc @ [int v]) = Some ((acc @ [int v]) @ map int xs)"
    "length xs = k" "linked_path E P (s # rev xs)" "last (s # rev xs) = u" "set xs \<subseteq> {..<n}"
    by blast
  have step: "path_loop f P (int s) (int v) acc = path_loop f' P (int s) (int u) (acc @ [int v])"
    using f vs u by simp
  have lp: "linked_path E P ((s # rev xs) @ [v])"
    using xs u by (intro linked_path_snoc) auto
  show ?case
    using step xs lp Suc.prems by (intro exI[of _ "v # xs"]) auto
qed

lemma print_path_tree:
  assumes t: "tree_inv n s E A P L" and n: "n \<le> MAX_NODES"
    and v: "v < n" "v = s \<or> P ! v \<noteq> -1"
  shows "\<exists>p. print_path P (int s) (int v) = Some (Path (map int p)) \<and> p \<noteq> [] \<and> hd p = s \<and>
             last p = v \<and> length p = Suc (L v) \<and> linked_path E P p \<and> set p \<subseteq> {..<n}"
proof -
  from tree_inv_depth_bound [OF t v(1)] n have b: "L v < MAX_NODES" by simp
  then have "L v \<le> MAX_NODES" by simp
  from path_loop_tree [OF t v refl this, of "[]"]
  obtain xs where xs: "path_loop MAX_NODES P (int s) (int v) [] = Some (map int xs)"
    "length xs = L v" "linked_path E P (s # rev xs)" "last (s # rev xs) = v" "set xs \<subseteq> {..<n}"
    by auto
  from t have "s < n" by (auto simp: tree_inv_def)
  with xs b show ?thesis
    by (intro exI[of _ "s # rev xs"]) (auto simp: print_path_def rev_map)
qed

lemma print_path_p2_tree:
  assumes t: "tree_inv n s E A P L" and n: "n \<le> MAX_NODES_p2"
    and v: "v < n" "v \<noteq> s" "P ! v \<noteq> -1"
  shows "\<exists>p. print_path_p2 P (int s) (int v) = Some (Route (map int p)) \<and> p \<noteq> [] \<and> hd p = s \<and>
             last p = v \<and> length p = Suc (L v) \<and> linked_path E P p \<and> set p \<subseteq> {..<n}"
proof -
  from tree_inv_depth_bound [OF t v(1)] n have b: "L v < MAX_NODES_p2" by simp
  then have le: "L v \<le> MAX_NODES_p2" by simp
  from v have a: "v = s \<or> P ! v \<noteq> -1" by simp
  from path_loop_tree [OF t v(1) a refl le, of "[]"]
  obtain xs where xs: "path_loop MAX_NODES_p2 P (int s) (int v) [] = Some (map int xs)"
    "length xs = L v" "linked_path E P (s # rev xs)" "last (s # rev xs) = v" "set xs \<subseteq> {..<n}"
    by auto
  from t have "s < n" by (auto simp: tree_inv_def)
  with xs b v show ?thesis
    by (intro exI[of _ "s # rev xs"]) (auto simp: print_path_p2_def rev_map)
qed

lemma pred_walk_none: "pred_walk P k (-1) = -1"
  by (cases k) auto

lemma pred_walk_tree_anchored:
  assumes t: "tree_inv n s E A P L"
  shows "v < n \<Longrightarrow> v = s \<or> P ! v \<noteq> -1 \<Longrightarrow> L v = k \<Longrightarrow> pred_walk P (Suc k) (int v) = -1"
proof (induction k arbitrary: v)
  case 0
  with t have "v = s" by (auto simp: tree_inv_def)
  with t show ?case by (simp add: tree_inv_def)
next
  case (Suc k)
  from t Suc.prems have vs: "v \<noteq> s" by (auto simp: tree_inv_def)
  with Suc.prems have "P ! v \<noteq> -1" by simp
  with t Suc.prems obtain u where u: "u \<in> A" "P ! v = int u" "u = s \<or> P ! u \<noteq> -1"
    "L v = Suc (L u)" unfolding tree_inv_def by blast
  from t u have un: "u < n" by (auto simp: tree_inv_def)
  from u Suc.prems have "L u = k" by simp
  from Suc.IH [OF un u(3) this] u show ?case by simp
qed

lemma pred_walk_tree:
  assumes t: "tree_inv n s E A P L" and v: "v < n"
  shows "\<exists>k\<le>n. pred_walk P k (int v) = -1"
proof (cases "v = s \<or> P ! v \<noteq> -1")
  case True
  from pred_walk_tree_anchored [OF t v True refl] tree_inv_depth_bound [OF t v]
  show ?thesis by (intro exI[of _ "Suc (L v)"]) simp
next
  case False
  then have "pred_walk P 1 (int v) = -1" by simp
  with v show ?thesis by (intro exI[of _ 1]) auto
qed

lemma print_path_total:
  assumes tr: "tree_inv n s E A P L" and n: "n \<le> MAX_NODES" and v: "v < n"
  shows "\<exists>out. print_path P (int s) (int v) = Some out"
proof (cases "v = s \<or> P ! v \<noteq> -1")
  case True
  from print_path_tree [OF tr n v True] show ?thesis by blast
next
  case False
  then have "path_loop MAX_NODES P (int s) (int v) [] = Some [int v]"
    by (simp add: MAX_NODES_def eval_nat_numeral)
  then show ?thesis by (simp add: print_path_def MAX_NODES_def)
qed

lemma print_path_p2_total:
  assumes tr: "tree_inv n s E A P L" and n: "n \<le> MAX_NODES_p2" and v: "v < n"
  shows "\<exists>out. print_path_p2 P (int s) (int v) = Some out"
proof (cases "v \<noteq> s \<and> P ! v \<noteq> -1")
  case True
  then have "v \<noteq> s" "P ! v \<noteq> -1" by simp_all
  from print_path_p2_tree [OF tr n v this] show ?thesis by blast
next
  case False
  then show ?thesis by (auto simp: print_path_p2_def)
qed

section \<open>Dijkstra: the shape of the run\<close>

lemma relax_Nil: "relax u visited [] st = st"
  by (simp add: relax_def)

lemma relax_Cons: "relax u visited (e # es) st = relax u visited es (relax_edge u visited e st)"
  by (simp add: relax_def)

lemma relax_struct:
  assumes vis: "length visited = n" "u \<in> vset visited" "s \<in> vset visited"
  shows "\<forall>e\<in>set es. fst e < n \<and> (u, fst e) \<in> E \<Longrightarrow> length dist = n \<Longrightarrow>
         tree_inv n s E (vset visited) parent L \<Longrightarrow>
         (\<forall>v<n. dist ! v \<noteq> INFINITY \<longrightarrow> v = s \<or> parent ! v \<noteq> -1) \<Longrightarrow>
         \<exists>L'. length (fst (relax u visited es (dist, parent))) = n \<and>
              tree_inv n s E (vset visited) (snd (relax u visited es (dist, parent))) L' \<and>
              (\<forall>v<n. fst (relax u visited es (dist, parent)) ! v \<noteq> INFINITY \<longrightarrow>
                     v = s \<or> snd (relax u visited es (dist, parent)) ! v \<noteq> -1)"
proof (induction es arbitrary: dist parent L)
  case Nil
  then show ?case by (auto simp: relax_Nil)
next
  case (Cons e es)
  obtain v w where e: "e = (v, w)" by (cases e)
  from Cons.prems e have v: "v < n" "(u, v) \<in> E" by auto
  from Cons.prems have rest: "\<forall>e\<in>set es. fst e < n \<and> (u, fst e) \<in> E" by simp
  from vis have un: "u < n" by (auto simp: vset_def)
  from Cons.prems have lenP: "length parent = n" by (simp add: tree_inv_def)
  show ?case
  proof (cases "\<not> visited ! v \<and> dist ! u \<noteq> INFINITY \<and> wrap_int (dist ! u + w) < dist ! v")
    case True
    then have st: "relax_edge u visited e (dist, parent) =
        (dist[v := wrap_int (dist ! u + w)], parent[v := int u])"
      by (simp add: relax_edge_def e)
    from True vis v have vA: "v \<notin> vset visited" by (simp add: vset_def)
    from True Cons.prems(4) un have anc: "u = s \<or> parent ! u \<noteq> -1" by simp
    have t': "tree_inv n s E (vset visited) (parent[v := int u]) (L(v := Suc (L u)))"
      using Cons.prems(3) v(1) vA vis(2) anc v(2) by (rule tree_inv_assign)
    have g': "\<forall>x<n. (dist[v := wrap_int (dist ! u + w)]) ! x \<noteq> INFINITY \<longrightarrow>
                x = s \<or> (parent[v := int u]) ! x \<noteq> -1"
    proof (intro allI impI)
      fix x assume x: "x < n" "(dist[v := wrap_int (dist ! u + w)]) ! x \<noteq> INFINITY"
      show "x = s \<or> (parent[v := int u]) ! x \<noteq> -1"
      proof (cases "x = v")
        case True
        with lenP v show ?thesis by simp
      next
        case False
        with x Cons.prems(4) show ?thesis by simp
      qed
    qed
    have len': "length (dist[v := wrap_int (dist ! u + w)]) = n" using Cons.prems(2) by simp
    from Cons.IH [OF rest len' t' g'] show ?thesis
      by (simp add: relax_Cons st)
  next
    case False
    then have st: "relax_edge u visited e (dist, parent) = (dist, parent)"
      by (auto simp: relax_edge_def e)
    from Cons.IH [OF rest Cons.prems(2,3,4)] show ?thesis
      by (simp add: relax_Cons st)
  qed
qed

lemma wf_graph_p2_edge:
  assumes "wf_graph_p2 g" "u < num_nodes_p2 g" "e \<in> set (adj_lists_p2 g ! u)"
  shows "fst e < num_nodes_p2 g \<and> (u, fst e) \<in> edges_p2 g"
proof -
  from assms have "adj_lists_p2 g ! u \<in> set (adj_lists_p2 g)"
    by (simp add: wf_graph_p2_def)
  with assms show ?thesis by (auto simp: wf_graph_p2_def edges_p2_def)
qed

lemma dj_struct_init:
  assumes "s < num_nodes_p2 g"
  shows "dj_struct g s (dijkstra_init g s) (\<lambda>_. 0)"
  using assms
  by (auto simp: dj_struct_def dijkstra_init_def Let_def vset_replicate tree_inv_init nth_list_update)

lemma dj_struct_select:
  assumes d: "dj_struct g s (dist, visited, parent) L" and s: "s < num_nodes_p2 g"
    and ns: "s \<notin> vset visited"
  shows "snd (min_scan (num_nodes_p2 g) dist visited) = int s"
proof -
  let ?n = "num_nodes_p2 g"
  from d ns have ds: "dist ! s = 0" "\<forall>v<?n. v \<noteq> s \<longrightarrow> dist ! v = INFINITY" and len: "length visited = ?n"
    by (auto simp: dj_struct_def Let_def)
  from ns s len have nv: "\<not> visited ! s" by (simp add: vset_def)
  from ds have "dist ! s \<le> INFINITY" by (simp add: INFINITY_def)
  from min_scan_some [OF s nv this]
  obtain j where j: "j < ?n" "snd (min_scan ?n dist visited) = int j"
    "\<forall>v<?n. \<not> visited ! v \<longrightarrow> dist ! j \<le> dist ! v \<and> (dist ! v = dist ! j \<longrightarrow> v \<le> j)"
    by blast
  from j(3) s nv ds have "dist ! j \<le> 0" by auto
  with ds j(1) have "j = s" by (auto simp: INFINITY_def)
  with j show ?thesis by simp
qed

lemma dj_struct_step:
  assumes wf: "wf_graph_p2 g" and s: "s < num_nodes_p2 g"
    and d: "dj_struct g s (dist, visited, parent) L"
    and j: "j < num_nodes_p2 g" "snd (min_scan (num_nodes_p2 g) dist visited) = int j"
  shows "\<exists>L'. dj_struct g s
           (fst (relax j (visited[j := True]) (adj_lists_p2 g ! j) (dist, parent)),
            visited[j := True],
            snd (relax j (visited[j := True]) (adj_lists_p2 g ! j) (dist, parent))) L'"
proof -
  let ?n = "num_nodes_p2 g"
  let ?vis = "visited[j := True]"
  from d have len: "length dist = ?n" "length visited = ?n"
    and t: "tree_inv ?n s (edges_p2 g) (insert s (vset visited)) parent L"
    and g3: "\<forall>v<?n. dist ! v \<noteq> INFINITY \<longrightarrow> v = s \<or> parent ! v \<noteq> -1"
    by (auto simp: dj_struct_def Let_def)
  have vs: "vset ?vis = insert j (vset visited)" using j len by (simp add: vset_update)
  have sv: "s \<in> vset ?vis"
  proof (cases "s \<in> vset visited")
    case True
    with vs show ?thesis by simp
  next
    case False
    from dj_struct_select [OF d s False] j have "j = s" by simp
    with vs show ?thesis by simp
  qed
  then have eq: "insert s (vset ?vis) = vset ?vis" by auto
  have "tree_inv ?n s (edges_p2 g) (insert j (insert s (vset visited))) parent L"
    using t j(1) by (rule tree_inv_add)
  moreover have "insert j (insert s (vset visited)) = vset ?vis"
    using vs sv by auto
  ultimately have t': "tree_inv ?n s (edges_p2 g) (vset ?vis) parent L"
    by simp
  have jv: "j \<in> vset ?vis" using vs by simp
  have es: "\<forall>e\<in>set (adj_lists_p2 g ! j). fst e < ?n \<and> (j, fst e) \<in> edges_p2 g"
    using wf_graph_p2_edge [OF wf j(1)] by blast
  have lv: "length ?vis = ?n" using len by simp
  from relax_struct [OF lv jv sv es len(1) t' g3]
  obtain L' where L': "length (fst (relax j ?vis (adj_lists_p2 g ! j) (dist, parent))) = ?n"
    "tree_inv ?n s (edges_p2 g) (vset ?vis) (snd (relax j ?vis (adj_lists_p2 g ! j) (dist, parent))) L'"
    "\<forall>v<?n. fst (relax j ?vis (adj_lists_p2 g ! j) (dist, parent)) ! v \<noteq> INFINITY \<longrightarrow>
            v = s \<or> snd (relax j ?vis (adj_lists_p2 g ! j) (dist, parent)) ! v \<noteq> -1"
    by blast
  show ?thesis
    using L' lv sv eq by (intro exI[of _ L']) (simp add: dj_struct_def Let_def)
qed

lemma dj_struct_loop:
  assumes wf: "wf_graph_p2 g" and s: "s < num_nodes_p2 g"
  shows "dj_struct g s st L \<Longrightarrow> \<exists>L'. dj_struct g s (dijkstra_loop k g st) L'"
proof (induction k arbitrary: st L)
  case 0
  then show ?case by auto
next
  case (Suc k)
  obtain dist visited parent where st: "st = (dist, visited, parent)" by (cases st)
  let ?n = "num_nodes_p2 g"
  from min_scan_cases [of ?n dist visited] show ?case
  proof
    assume "snd (min_scan ?n dist visited) = -1 \<and> (\<forall>v<?n. visited ! v \<or> INFINITY < dist ! v)"
    with Suc.prems st show ?thesis by (auto simp: Let_def)
  next
    assume "\<exists>j<?n. snd (min_scan ?n dist visited) = int j \<and> \<not> visited ! j \<and> dist ! j \<le> INFINITY \<and>
        (\<forall>v<?n. \<not> visited ! v \<longrightarrow> dist ! j \<le> dist ! v \<and> (dist ! v = dist ! j \<longrightarrow> v \<le> j))"
    then obtain j where j: "j < ?n" "snd (min_scan ?n dist visited) = int j" by blast
    from dj_struct_step [OF wf s Suc.prems [unfolded st] j]
    obtain L1 where "dj_struct g s
           (fst (relax j (visited[j := True]) (adj_lists_p2 g ! j) (dist, parent)),
            visited[j := True],
            snd (relax j (visited[j := True]) (adj_lists_p2 g ! j) (dist, parent))) L1" by blast
    from Suc.IH [OF this] show ?thesis
      using j st by (simp add: Let_def)
  qed
qed

lemma dijkstra_struct:
  assumes wf: "wf_graph_p2 g" and s: "s < num_nodes_p2 g"
  shows "\<exists>L. dj_struct g s (dijkstra_run g s) L"
  unfolding dijkstra_run_def
  using dj_struct_loop [OF wf s dj_struct_init [OF s]] .

lemma dijkstra_fst: "fst (dijkstra g s) = fst (dijkstra_run g s)"
  by (simp add: dijkstra_def Let_def)

lemma dijkstra_snd: "snd (dijkstra g s) = snd (snd (dijkstra_run g s))"
  by (simp add: dijkstra_def Let_def)

lemma dijkstra_tree:
  assumes wf: "wf_graph_p2 g" and s: "s < num_nodes_p2 g"
  shows "\<exists>A L. tree_inv (num_nodes_p2 g) s (edges_p2 g) A (snd (dijkstra g s)) L \<and>
           length (fst (dijkstra g s)) = num_nodes_p2 g \<and>
           (\<forall>v<num_nodes_p2 g. fst (dijkstra g s) ! v \<noteq> INFINITY \<longrightarrow>
               v = s \<or> snd (dijkstra g s) ! v \<noteq> -1)"
proof -
  from dijkstra_struct [OF wf s] obtain L where L: "dj_struct g s (dijkstra_run g s) L" by blast
  obtain dist visited parent where r: "dijkstra_run g s = (dist, visited, parent)"
    by (cases "dijkstra_run g s")
  from L show ?thesis
    unfolding dijkstra_fst dijkstra_snd r dj_struct_def Let_def fst_conv snd_conv by blast
qed

lemma dijkstra_unreachable:
  assumes wf: "wf_graph_p2 g" and s: "s < num_nodes_p2 g" and t: "t < num_nodes_p2 g"
    and nr: "(s, t) \<notin> (edges_p2 g)\<^sup>*"
  shows "fst (dijkstra g s) ! t = INFINITY" and "snd (dijkstra g s) ! t = -1"
    and "print_path_p2 (snd (dijkstra g s)) (int s) (int t) = Some (No_route (int s) (int t))"
proof -
  from dijkstra_tree [OF wf s] obtain A L where
    tr: "tree_inv (num_nodes_p2 g) s (edges_p2 g) A (snd (dijkstra g s)) L"
    and fin: "\<forall>v<num_nodes_p2 g. fst (dijkstra g s) ! v \<noteq> INFINITY \<longrightarrow>
               v = s \<or> snd (dijkstra g s) ! v \<noteq> -1" by blast
  from nr have ts: "t \<noteq> s" by auto
  show p: "snd (dijkstra g s) ! t = -1"
  proof (rule ccontr)
    assume "snd (dijkstra g s) ! t \<noteq> -1"
    then have "t = s \<or> snd (dijkstra g s) ! t \<noteq> -1" by simp
    from tree_inv_reach [OF tr t this refl] have "(s, t) \<in> (edges_p2 g)\<^sup>*"
      by (rule relpow_imp_rtrancl)
    with nr show False by simp
  qed
  from fin t ts p show "fst (dijkstra g s) ! t = INFINITY" by blast
  from ts p show "print_path_p2 (snd (dijkstra g s)) (int s) (int t) = Some (No_route (int s) (int t))"
    by (simp add: print_path_p2_def)
qed

section \<open>Dijkstra: the distances\<close>















lemma net_abc_eval:
  "net_abc = \<lparr>num_nodes_p2 = 3, adj_lists_p2 = [[(2, 20), (1, 10)], [(2, 5)], []],
              node_names = [None, None, None]\<rparr>"
  by (simp add: net_abc_def add_edge_p2_def create_graph_p2_def numeral_3_eq_3)

lemma net_abc_wf: "wf_graph_p2 net_abc"
  by (simp add: net_abc_eval wf_graph_p2_def)






section \<open>BFS\<close>

lemma bfs_neighbors_Nil: "bfs_neighbors u [] st = st"
  by (simp add: bfs_neighbors_def)

lemma bfs_neighbors_Cons: "bfs_neighbors u (v # vs) st = bfs_neighbors u vs (bfs_neighbor u v st)"
  by (simp add: bfs_neighbors_def)

lemma bfs_innerI:
  assumes "length visited = num_nodes g" "tree_inv (num_nodes g) s (edges g) (vset visited) parent L"
    "set q \<subseteq> vset visited" "distinct q" "u \<in> vset visited" "u \<notin> set q" "u \<noteq> t"
    "\<forall>v\<in>vset visited. v = s \<or> parent ! v \<noteq> -1"
    "\<forall>v<num_nodes g. parent ! v \<noteq> -1 \<longrightarrow> v \<in> vset visited"
    "sorted_wrt (\<lambda>a b. L a \<le> L b) q" "\<forall>x\<in>set q. L u \<le> L x \<and> L x \<le> Suc (L u)"
    "\<forall>x\<in>vset visited - set q. L x \<le> L u"
    "\<forall>x\<in>vset visited - set q - {u}. \<forall>y. (x, y) \<in> edges g \<longrightarrow> y \<in> vset visited \<and> L y \<le> Suc (L x)"
    "\<forall>y\<in>set (adj_lists g ! u) - set rest. y \<in> vset visited \<and> L y \<le> Suc (L u)"
    "t \<notin> vset visited - set q - {u}"
  shows "bfs_inner g s t u rest (visited, parent, q) L"
  unfolding bfs_inner_def Let_def fst_conv snd_conv
  by (intro conjI assms)

lemma bfs_innerD:
  assumes "bfs_inner g s t u rest (visited, parent, q) L"
  shows "length visited = num_nodes g" "tree_inv (num_nodes g) s (edges g) (vset visited) parent L"
    "set q \<subseteq> vset visited" "distinct q" "u \<in> vset visited" "u \<notin> set q" "u \<noteq> t"
    "\<forall>v\<in>vset visited. v = s \<or> parent ! v \<noteq> -1"
    "\<forall>v<num_nodes g. parent ! v \<noteq> -1 \<longrightarrow> v \<in> vset visited"
    "sorted_wrt (\<lambda>a b. L a \<le> L b) q" "\<forall>x\<in>set q. L u \<le> L x \<and> L x \<le> Suc (L u)"
    "\<forall>x\<in>vset visited - set q. L x \<le> L u"
    "\<forall>x\<in>vset visited - set q - {u}. \<forall>y. (x, y) \<in> edges g \<longrightarrow> y \<in> vset visited \<and> L y \<le> Suc (L x)"
    "\<forall>y\<in>set (adj_lists g ! u) - set rest. y \<in> vset visited \<and> L y \<le> Suc (L u)"
    "t \<notin> vset visited - set q - {u}"
  using assms unfolding bfs_inner_def Let_def fst_conv snd_conv
  apply -
  apply (elim conjE, assumption)+
  done

lemma bfs_inner_step:
  assumes inv: "bfs_inner g s t u (v # rest) (visited, parent, q) L"
    and v: "v < num_nodes g" "(u, v) \<in> edges g"
  shows "\<exists>L'. bfs_inner g s t u rest (bfs_neighbor u v (visited, parent, q)) L'"
    and "bfs_measure (bfs_neighbor u v (visited, parent, q)) = bfs_measure (visited, parent, q)"
proof -
  let ?n = "num_nodes g" and ?E = "edges g" and ?V = "vset visited"
  note d = bfs_innerD [OF inv]
  note len = d(1) and t = d(2) and qV = d(3) and dq = d(4) and u = d(5,6,7)
    and anc = d(8) and pv = d(9) and so = d(10) and ql = d(11) and dl = d(12)
    and cl = d(13) and dn = d(14) and tt = d(15)
  from t have lenP: "length parent = ?n" by (simp add: tree_inv_def)
  show "\<exists>L'. bfs_inner g s t u rest (bfs_neighbor u v (visited, parent, q)) L'"
  proof (cases "visited ! v")
    case True
    then have st: "bfs_neighbor u v (visited, parent, q) = (visited, parent, q)"
      by (simp add: bfs_neighbor_def)
    from True v len have vV: "v \<in> ?V" by (simp add: vset_def)
    have "L v \<le> Suc (L u)"
    proof (cases "v \<in> set q")
      case True
      with ql show ?thesis by simp
    next
      case False
      with vV dl have "L v \<le> L u" by simp
      then show ?thesis by simp
    qed
    with vV dn have dn': "\<forall>y\<in>set (adj_lists g ! u) - set rest. y \<in> ?V \<and> L y \<le> Suc (L u)"
      by auto
    have "bfs_inner g s t u rest (visited, parent, q) L"
      using len t qV dq u anc pv so ql dl cl dn' tt by (rule bfs_innerI)
    with st show ?thesis by auto
  next
    case False
    let ?vis = "visited[v := True]" and ?P = "parent[v := int u]" and ?q = "q @ [v]"
    let ?L = "L(v := Suc (L u))"
    from False have st: "bfs_neighbor u v (visited, parent, q) = (?vis, ?P, ?q)"
      by (simp add: bfs_neighbor_def)
    from False have vV: "v \<notin> ?V" by (simp add: vset_def)
    have V': "vset ?vis = insert v ?V" using v len by (simp add: vset_update)
    from vV qV have vq: "v \<notin> set q" by auto
    from vV u have vu: "v \<noteq> u" by auto
    from anc u have au: "u = s \<or> parent ! u \<noteq> -1" by simp
    have "tree_inv ?n s ?E ?V ?P ?L"
      using t v(1) vV u(1) au v(2) by (rule tree_inv_assign)
    then have t': "tree_inv ?n s ?E (insert v ?V) ?P ?L"
      using v(1) by (rule tree_inv_add)
    have Leq: "\<And>x. x \<noteq> v \<Longrightarrow> ?L x = L x" by simp
    have LV: "\<And>x. x \<in> ?V \<Longrightarrow> ?L x = L x" using vV by auto
    have a1: "set ?q \<subseteq> insert v ?V" using qV by auto
    have a2: "distinct ?q" using dq vq by simp
    have a3: "u \<in> insert v ?V" "u \<notin> set ?q" using u vu by auto
    have a4: "\<forall>x\<in>insert v ?V. x = s \<or> ?P ! x \<noteq> -1"
    proof
      fix x assume "x \<in> insert v ?V"
      show "x = s \<or> ?P ! x \<noteq> -1"
      proof (cases "x = v")
        case True
        with lenP v show ?thesis by simp
      next
        case False
        with \<open>x \<in> insert v ?V\<close> anc show ?thesis by auto
      qed
    qed
    have a5: "\<forall>x<?n. ?P ! x \<noteq> -1 \<longrightarrow> x \<in> insert v ?V"
    proof (intro allI impI)
      fix x assume "x < ?n" "?P ! x \<noteq> -1"
      with pv show "x \<in> insert v ?V" by (cases "x = v") auto
    qed
    have so': "sorted_wrt (\<lambda>a b. ?L a \<le> ?L b) q"
    proof (rule sorted_wrt_mono_rel [OF _ so])
      fix x y assume "x \<in> set q" "y \<in> set q" "L x \<le> L y"
      with vq show "?L x \<le> ?L y" by auto
    qed
    have "\<forall>x\<in>set q. ?L x \<le> ?L v"
    proof
      fix x assume x: "x \<in> set q"
      with vq have "x \<noteq> v" by blast
      with ql x show "?L x \<le> ?L v" by simp
    qed
    with so' have a6: "sorted_wrt (\<lambda>a b. ?L a \<le> ?L b) ?q"
      by (simp add: sorted_wrt_append)
    have a7: "\<forall>x\<in>set ?q. ?L u \<le> ?L x \<and> ?L x \<le> Suc (?L u)"
    proof
      fix x assume x: "x \<in> set ?q"
      show "?L u \<le> ?L x \<and> ?L x \<le> Suc (?L u)"
      proof (cases "x = v")
        case True
        with vu show ?thesis by simp
      next
        case False
        with x have "x \<in> set q" by simp
        with ql False vu show ?thesis by simp
      qed
    qed
    have a8: "\<forall>x\<in>insert v ?V - set ?q. ?L x \<le> ?L u"
    proof
      fix x assume "x \<in> insert v ?V - set ?q"
      then have x: "x \<in> ?V - set q" "x \<noteq> v" by simp_all
      with dl have "L x \<le> L u" by blast
      with x vu show "?L x \<le> ?L u" by simp
    qed
    have a9: "\<forall>x\<in>insert v ?V - set ?q - {u}. \<forall>y. (x, y) \<in> ?E \<longrightarrow> y \<in> insert v ?V \<and> ?L y \<le> Suc (?L x)"
    proof (intro ballI allI impI)
      fix x y assume x: "x \<in> insert v ?V - set ?q - {u}" and e: "(x, y) \<in> ?E"
      from x have x': "x \<in> ?V - set q - {u}" by simp
      with cl e have y: "y \<in> ?V \<and> L y \<le> Suc (L x)" by blast
      from x' have "x \<in> ?V" by simp
      with y LV [of x] LV [of y] show "y \<in> insert v ?V \<and> ?L y \<le> Suc (?L x)" by simp
    qed
    have a10: "\<forall>y\<in>set (adj_lists g ! u) - set rest. y \<in> insert v ?V \<and> ?L y \<le> Suc (?L u)"
    proof
      fix y assume y: "y \<in> set (adj_lists g ! u) - set rest"
      show "y \<in> insert v ?V \<and> ?L y \<le> Suc (?L u)"
      proof (cases "y = v")
        case True
        with vu show ?thesis by simp
      next
        case False
        with y dn have "y \<in> ?V" "L y \<le> Suc (L u)" by auto
        with vu False show ?thesis by simp
      qed
    qed
    have a11: "t \<notin> insert v ?V - set ?q - {u}" using tt by auto
    have lv: "length ?vis = ?n" using len by simp
    have "bfs_inner g s t u rest (?vis, ?P, ?q) ?L"
      using lv t' a1 a2 a3 u(3) a4 a5 a6 a7 a8 a9 a10 a11 unfolding V' [symmetric]
      by (rule bfs_innerI)
    with st show ?thesis by auto
  qed
  show "bfs_measure (bfs_neighbor u v (visited, parent, q)) = bfs_measure (visited, parent, q)"
  proof (cases "visited ! v")
    case True
    then show ?thesis by (simp add: bfs_neighbor_def)
  next
    case False
    from v len have vl: "v < length visited" by simp
    from vset_card_less [OF vl False] have c: "card (vset visited) < length visited" .
    from False vl have "v \<notin> vset visited" by (simp add: vset_def)
    then have "card (vset (visited[v := True])) = Suc (card (vset visited))"
      using vl by (simp add: vset_update vset_finite)
    with c False show ?thesis by (simp add: bfs_neighbor_def bfs_measure_def)
  qed
qed

lemma bfs_invI:
  assumes "length visited = num_nodes g" "tree_inv (num_nodes g) s (edges g) (vset visited) parent L"
    "set q \<subseteq> vset visited" "distinct q"
    "\<forall>v\<in>vset visited. v = s \<or> parent ! v \<noteq> -1"
    "\<forall>v<num_nodes g. parent ! v \<noteq> -1 \<longrightarrow> v \<in> vset visited"
    "sorted_wrt (\<lambda>a b. L a \<le> L b) q" "\<forall>x\<in>set q. L x \<le> Suc (L (hd q))"
    "\<forall>x\<in>vset visited - set q. \<forall>y\<in>set q. L x \<le> L y"
    "\<forall>x\<in>vset visited - set q. \<forall>y. (x, y) \<in> edges g \<longrightarrow> y \<in> vset visited \<and> L y \<le> Suc (L x)"
    "t \<notin> vset visited - set q"
  shows "bfs_inv g s t (visited, parent, q) L"
  unfolding bfs_inv_def Let_def fst_conv snd_conv
  by (intro conjI assms)

lemma bfs_invD:
  assumes "bfs_inv g s t (visited, parent, q) L"
  shows "length visited = num_nodes g" "tree_inv (num_nodes g) s (edges g) (vset visited) parent L"
    "set q \<subseteq> vset visited" "distinct q"
    "\<forall>v\<in>vset visited. v = s \<or> parent ! v \<noteq> -1"
    "\<forall>v<num_nodes g. parent ! v \<noteq> -1 \<longrightarrow> v \<in> vset visited"
    "sorted_wrt (\<lambda>a b. L a \<le> L b) q" "\<forall>x\<in>set q. L x \<le> Suc (L (hd q))"
    "\<forall>x\<in>vset visited - set q. \<forall>y\<in>set q. L x \<le> L y"
    "\<forall>x\<in>vset visited - set q. \<forall>y. (x, y) \<in> edges g \<longrightarrow> y \<in> vset visited \<and> L y \<le> Suc (L x)"
    "t \<notin> vset visited - set q"
  using assms unfolding bfs_inv_def Let_def fst_conv snd_conv
  apply -
  apply (elim conjE, assumption)+
  done

lemma wf_graph_edge:
  assumes "wf_graph g" "u < num_nodes g" "v \<in> set (adj_lists g ! u)"
  shows "v < num_nodes g \<and> (u, v) \<in> edges g"
proof -
  from assms have "adj_lists g ! u \<in> set (adj_lists g)"
    by (simp add: wf_graph_def)
  with assms show ?thesis by (auto simp: wf_graph_def edges_def)
qed

lemma bfs_inner_fold:
  assumes wf: "wf_graph g" and u: "u < num_nodes g"
  shows "set rest \<subseteq> set (adj_lists g ! u) \<Longrightarrow> bfs_inner g s t u rest st L \<Longrightarrow>
         (\<exists>L'. bfs_inner g s t u [] (bfs_neighbors u rest st) L') \<and>
         bfs_measure (bfs_neighbors u rest st) = bfs_measure st"
proof (induction rest arbitrary: st L)
  case Nil
  then show ?case by (auto simp: bfs_neighbors_Nil)
next
  case (Cons v rest)
  obtain visited parent q where st: "st = (visited, parent, q)" by (cases st)
  from Cons.prems have "v \<in> set (adj_lists g ! u)" by simp
  from wf_graph_edge [OF wf u this] have v: "v < num_nodes g" "(u, v) \<in> edges g" by simp_all
  from bfs_inner_step [OF Cons.prems(2) [unfolded st] v]
  obtain L1 where L1: "bfs_inner g s t u rest (bfs_neighbor u v st) L1"
    and m: "bfs_measure (bfs_neighbor u v st) = bfs_measure st"
    unfolding st by blast
  from Cons.prems have "set rest \<subseteq> set (adj_lists g ! u)" by simp
  from Cons.IH [OF this L1] m show ?case by (simp add: bfs_neighbors_Cons)
qed

lemma bfs_inv_to_inner:
  assumes inv: "bfs_inv g s t (visited, parent, u # q) L" and ut: "u \<noteq> t"
  shows "bfs_inner g s t u (adj_lists g ! u) (visited, parent, q) L"
proof -
  let ?V = "vset visited"
  note d = bfs_invD [OF inv]
  from d(3) have a3: "set q \<subseteq> ?V" and uV: "u \<in> ?V" by simp_all
  from d(4) have a4: "distinct q" and uq: "u \<notin> set q" by simp_all
  from d(7) have so: "sorted_wrt (\<lambda>a b. L a \<le> L b) q" and ul: "\<forall>x\<in>set q. L u \<le> L x"
    by simp_all
  from d(8) have "\<forall>x\<in>set q. L x \<le> Suc (L u)" by simp
  with ul have a11: "\<forall>x\<in>set q. L u \<le> L x \<and> L x \<le> Suc (L u)" by blast
  have a12: "\<forall>x\<in>?V - set q. L x \<le> L u"
  proof
    fix x assume x: "x \<in> ?V - set q"
    show "L x \<le> L u"
    proof (cases "x = u")
      case True
      then show ?thesis by simp
    next
      case False
      with x have "x \<in> ?V - set (u # q)" by simp
      with d(9) show ?thesis by simp
    qed
  qed
  have eq: "?V - set q - {u} = ?V - set (u # q)" by auto
  have a13: "\<forall>x\<in>?V - set q - {u}. \<forall>y. (x, y) \<in> edges g \<longrightarrow> y \<in> ?V \<and> L y \<le> Suc (L x)"
    unfolding eq using d(10) .
  have a14: "\<forall>y\<in>set (adj_lists g ! u) - set (adj_lists g ! u). y \<in> ?V \<and> L y \<le> Suc (L u)"
    by simp
  have a15: "t \<notin> ?V - set q - {u}" unfolding eq using d(11) .
  from d(1) d(2) a3 a4 uV uq ut d(5) d(6) so a11 a12 a13 a14 a15
  show ?thesis by (rule bfs_innerI)
qed

lemma bfs_inner_to_inv:
  assumes inn: "bfs_inner g s t u [] (visited, parent, q) L"
  shows "bfs_inv g s t (visited, parent, q) L"
proof -
  let ?V = "vset visited"
  note d = bfs_innerD [OF inn]
  have a8: "\<forall>x\<in>set q. L x \<le> Suc (L (hd q))"
  proof
    fix x assume x: "x \<in> set q"
    then have "hd q \<in> set q" by (cases q) auto
    with d(11) x have "L u \<le> L (hd q)" "L x \<le> Suc (L u)" by simp_all
    then show "L x \<le> Suc (L (hd q))" by simp
  qed
  have a9: "\<forall>x\<in>?V - set q. \<forall>y\<in>set q. L x \<le> L y"
  proof (intro ballI)
    fix x y assume "x \<in> ?V - set q" "y \<in> set q"
    with d(11) d(12) have "L x \<le> L u" "L u \<le> L y" by simp_all
    then show "L x \<le> L y" by simp
  qed
  have a10: "\<forall>x\<in>?V - set q. \<forall>y. (x, y) \<in> edges g \<longrightarrow> y \<in> ?V \<and> L y \<le> Suc (L x)"
  proof (intro ballI allI impI)
    fix x y assume x: "x \<in> ?V - set q" and e: "(x, y) \<in> edges g"
    show "y \<in> ?V \<and> L y \<le> Suc (L x)"
    proof (cases "x = u")
      case True
      with e have "y \<in> set (adj_lists g ! u) - set []" by (simp add: edges_def)
      with d(14) True show ?thesis by blast
    next
      case False
      with x have "x \<in> ?V - set q - {u}" by simp
      with d(13) e show ?thesis by blast
    qed
  qed
  have a11: "t \<notin> ?V - set q" using d(15) d(7) by auto
  from d(1) d(2) d(3) d(4) d(8) d(9) d(10) a8 a9 a10 a11
  show ?thesis by (rule bfs_invI)
qed

lemma bfs_inv_init:
  assumes s: "s < num_nodes g"
  shows "bfs_inv g s t (bfs_init g s) (\<lambda>_. 0)"
proof -
  let ?n = "num_nodes g"
  let ?vis = "(replicate ?n False)[s := True]"
  have V: "vset ?vis = {s}" using s by (simp add: vset_update vset_replicate)
  have t: "tree_inv ?n s (edges g) {s} (replicate ?n (-1)) (\<lambda>_. 0)"
    using s by (rule tree_inv_init)
  have "bfs_inv g s t (?vis, replicate ?n (-1), [s]) (\<lambda>_. 0)"
    by (rule bfs_invI) (simp_all add: V t)
  then show ?thesis by (simp add: bfs_init_def)
qed

lemma bfs_min:
  assumes inv: "bfs_inv g s t (visited, parent, t # q) L"
  shows "(s, x) \<in> edges g ^^ m \<Longrightarrow> (x \<in> vset visited \<and> L x \<le> m) \<or> L t \<le> m"
proof (induction m arbitrary: x)
  case 0
  note d = bfs_invD [OF inv]
  from 0 have "x = s" by simp
  with d(2) show ?case by (simp add: tree_inv_def)
next
  case (Suc m)
  note d = bfs_invD [OF inv]
  from Suc.prems obtain y where y: "(s, y) \<in> edges g ^^ m" "(y, x) \<in> edges g" by auto
  from Suc.IH [OF y(1)] show ?case
  proof
    assume a: "y \<in> vset visited \<and> L y \<le> m"
    show ?thesis
    proof (cases "y \<in> set (t # q)")
      case True
      from d(7) have "\<forall>z\<in>set q. L t \<le> L z" by simp
      with True have "L t \<le> L y" by auto
      with a show ?thesis by simp
    next
      case False
      with a have "y \<in> vset visited - set (t # q)" by simp
      with d(10) y(2) have "x \<in> vset visited \<and> L x \<le> Suc (L y)" by blast
      with a show ?thesis by simp
    qed
  next
    assume "L t \<le> m"
    then show ?thesis by simp
  qed
qed

lemma bfs_closed:
  assumes inv: "bfs_inv g s t (visited, parent, []) L"
  shows "(s, x) \<in> (edges g)\<^sup>* \<Longrightarrow> x \<in> vset visited"
proof (induction rule: rtrancl_induct)
  case base
  from bfs_invD(2) [OF inv] show ?case by (simp add: tree_inv_def)
next
  case (step y z)
  from step(3) have "y \<in> vset visited - set []" by simp
  with bfs_invD(10) [OF inv] step(2) show ?case by blast
qed

lemma bfs_measure_dequeue:
  "bfs_measure (visited, parent, u # q) = Suc (bfs_measure (visited, parent, q))"
  by (simp add: bfs_measure_def)

lemma bfs_loop_correct:
  assumes wf: "wf_graph g" and t: "t < num_nodes g"
  shows "bfs_inv g s t st L \<Longrightarrow> \<exists>r L'. bfs_loop g t st = Some r \<and> bfs_post g s t r L'"
proof (induction "bfs_measure st" arbitrary: st L rule: less_induct)
  case less
  obtain visited parent q where st: "st = (visited, parent, q)" by (cases st)
  from less.prems have inv: "bfs_inv g s t (visited, parent, q) L" by (simp add: st)
  note d = bfs_invD [OF inv]
  show ?case
  proof (cases q)
    case Nil
    then have r: "bfs_loop g t st = Some (visited, parent, -1)"
      by (simp add: bfs_loop.simps st)
    from d(11) Nil have tv: "t \<notin> vset visited" by simp
    with bfs_closed [OF inv [unfolded Nil]] have nr: "(s, t) \<notin> (edges g)\<^sup>*" by blast
    from d(6) t tv have "parent ! t = -1" by blast
    with d(2) nr have "bfs_post g s t (visited, parent, -1) L"
      by (simp add: bfs_post_def)
    with r show ?thesis by blast
  next
    case (Cons u q')
    show ?thesis
    proof (cases "u = t")
      case True
      with Cons have r: "bfs_loop g t st = Some (visited, parent, int t)"
        by (simp add: bfs_loop.simps st)
      from d(3) Cons True have "t \<in> vset visited" by simp
      with d(5) have anc: "t = s \<or> parent ! t \<noteq> -1" by blast
      have "\<forall>m. (s, t) \<in> edges g ^^ m \<longrightarrow> L t \<le> m"
        using bfs_min [OF inv [unfolded Cons True], of t] by blast
      with d(2) anc have "bfs_post g s t (visited, parent, int t) L"
        by (simp add: bfs_post_def)
      with r show ?thesis by blast
    next
      case False
      let ?st' = "bfs_neighbors u (adj_lists g ! u) (visited, parent, q')"
      from Cons False have r: "bfs_loop g t st = bfs_loop g t ?st'"
        by (subst bfs_loop.simps) (simp add: st)
      from d(1) d(3) Cons have u: "u < num_nodes g" by (auto simp: vset_def)
      from bfs_inv_to_inner [OF inv [unfolded Cons] False]
      have inn: "bfs_inner g s t u (adj_lists g ! u) (visited, parent, q') L" .
      from bfs_inner_fold [OF wf u subset_refl inn]
      obtain L1 where L1: "bfs_inner g s t u [] ?st' L1"
        and m: "bfs_measure ?st' = bfs_measure (visited, parent, q')" by blast
      obtain v1 p1 q1 where st1: "?st' = (v1, p1, q1)" by (cases ?st')
      from bfs_inner_to_inv [OF L1 [unfolded st1]] have inv1: "bfs_inv g s t ?st' L1"
        by (simp add: st1)
      have "bfs_measure ?st' < bfs_measure st"
        using m by (simp add: st Cons bfs_measure_dequeue)
      from less.hyps [OF this inv1] r show ?thesis by simp
    qed
  qed
qed

lemma bfs_loop_init:
  assumes wf: "wf_graph g" and s: "s < num_nodes g" and t: "t < num_nodes g"
  shows "\<exists>r L. bfs_loop g t (bfs_init g s) = Some r \<and> bfs_post g s t r L"
  using bfs_loop_correct [OF wf t bfs_inv_init [OF s]] .

lemma reach_in_range:
  assumes wf: "wf_graph g" and s: "s < num_nodes g"
  shows "(s, v) \<in> (edges g)\<^sup>* \<Longrightarrow> v < num_nodes g"
proof (induction rule: rtrancl_induct)
  case base
  from s show ?case .
next
  case (step y z)
  from step(2) have "y < num_nodes g" "z \<in> set (adj_lists g ! y)" by (auto simp: edges_def)
  from wf_graph_edge [OF wf this] show ?case by simp
qed

lemma bfs_found:
  assumes wf: "wf_graph g" and s: "s < num_nodes g" and r: "(s, t) \<in> (edges g)\<^sup>*"
  shows "\<exists>visited parent L p.
           bfs_loop g t (bfs_init g s) = Some (visited, parent, int t) \<and>
           tree_inv (num_nodes g) s (edges g) (vset visited) parent L \<and>
           bfs g s t = Some (parent, int t, Path (map int p)) \<and>
           p \<noteq> [] \<and> hd p = s \<and> last p = t \<and> length p = Suc (L t) \<and>
           linked_path (edges g) parent p \<and> (s, t) \<in> edges g ^^ L t \<and>
           (\<forall>m. (s, t) \<in> edges g ^^ m \<longrightarrow> L t \<le> m)"
proof -
  let ?n = "num_nodes g"
  from reach_in_range [OF wf s r] have t: "t < ?n" .
  from bfs_loop_init [OF wf s t] obtain res L where
    res: "bfs_loop g t (bfs_init g s) = Some res" "bfs_post g s t res L" by blast
  obtain visited parent found where rs: "res = (visited, parent, found)" by (cases res)
  from res(2) r have tr: "tree_inv ?n s (edges g) (vset visited) parent L"
    and f: "found = int t" and anc: "t = s \<or> parent ! t \<noteq> -1"
    and mn: "\<forall>m. (s, t) \<in> edges g ^^ m \<longrightarrow> L t \<le> m"
    by (auto simp: bfs_post_def rs)
  from wf have n: "?n \<le> MAX_NODES" by (simp add: wf_graph_def)
  from print_path_tree [OF tr n t anc] obtain p where
    p: "print_path parent (int s) (int t) = Some (Path (map int p))" "p \<noteq> []" "hd p = s"
      "last p = t" "length p = Suc (L t)" "linked_path (edges g) parent p" by blast
  have "bfs g s t = Some (parent, int t, Path (map int p))"
    using res(1) p(1) by (simp add: bfs_def rs f)
  moreover from tree_inv_reach [OF tr t anc refl] have "(s, t) \<in> edges g ^^ L t" .
  ultimately show ?thesis using res(1) tr p mn unfolding rs f by blast
qed

lemma bfs_result:
  assumes wf: "wf_graph g" and s: "s < num_nodes g" and t: "t < num_nodes g"
  shows "\<exists>visited parent found out L.
           bfs_loop g t (bfs_init g s) = Some (visited, parent, found) \<and>
           bfs g s t = Some (parent, found, out) \<and>
           tree_inv (num_nodes g) s (edges g) (vset visited) parent L \<and>
           (found = int t \<and> (s, t) \<in> (edges g)\<^sup>* \<and>
              (\<exists>p. out = Path (map int p) \<and> p \<noteq> [] \<and> hd p = s \<and> last p = t \<and>
                   linked_path (edges g) parent p)
            \<or> found = -1 \<and> (s, t) \<notin> (edges g)\<^sup>* \<and> parent ! t = -1 \<and> out = No_path)"
proof -
  let ?n = "num_nodes g"
  from bfs_loop_init [OF wf s t] obtain res L where
    res: "bfs_loop g t (bfs_init g s) = Some res" "bfs_post g s t res L" by blast
  obtain visited parent found where rs: "res = (visited, parent, found)" by (cases res)
  from res(2) have tr: "tree_inv ?n s (edges g) (vset visited) parent L"
    and dj: "found = int t \<and> (t = s \<or> parent ! t \<noteq> -1)
        \<or> found = -1 \<and> (s, t) \<notin> (edges g)\<^sup>* \<and> parent ! t = -1"
    by (auto simp: bfs_post_def rs)
  from wf have n: "?n \<le> MAX_NODES" by (simp add: wf_graph_def)
  from dj show ?thesis
  proof
    assume a: "found = int t \<and> (t = s \<or> parent ! t \<noteq> -1)"
    then have f: "found = int t" and anc: "t = s \<or> parent ! t \<noteq> -1" by simp_all
    from print_path_tree [OF tr n t anc] obtain p where
      p: "print_path parent (int s) (int t) = Some (Path (map int p))" "p \<noteq> []" "hd p = s"
        "last p = t" "linked_path (edges g) parent p" by blast
    from tree_inv_reach [OF tr t anc refl] have re: "(s, t) \<in> (edges g)\<^sup>*"
      by (rule relpow_imp_rtrancl)
    have "bfs g s t = Some (parent, found, Path (map int p))"
      using res(1) p(1) by (simp add: bfs_def rs f)
    with res(1) tr p re f show ?thesis unfolding rs by blast
  next
    assume a: "found = -1 \<and> (s, t) \<notin> (edges g)\<^sup>* \<and> parent ! t = -1"
    then have "bfs g s t = Some (parent, found, No_path)"
      using res(1) by (simp add: bfs_def rs)
    with res(1) tr a show ?thesis unfolding rs by blast
  qed
qed


lemma maze_sq_eval:
  "maze_sq = \<lparr>num_nodes = 5, adj_lists = [[3, 1], [2, 0], [3, 1], [2, 0], []]\<rparr>"
  by (simp add: maze_sq_def add_edge_def create_graph_def Let_def eval_nat_numeral)

lemma maze_sq_wf: "wf_graph maze_sq"
  by (simp add: maze_sq_eval wf_graph_def MAX_NODES_def)

text \<open>
  C2. In a well-formed graph, for a target reachable from the source: the loop of BFS
  returns as soon as the target is at the front of the queue, with the arrays as they
  are; BFS ends that way, and the path it prints, read off the predecessor array from
  source to target, is a path of the graph whose number of edges is the least number of
  edges of any path from source to target.
\<close>

theorem bfs_shortest_path:
  assumes "wf_graph g" and "s < num_nodes g" and "(s, t) \<in> (edges g)\<^sup>*"
  shows "(\<forall>visited parent q. bfs_loop g t (visited, parent, t # q) = Some (visited, parent, int t)) \<and>
         (\<exists>parent p. bfs g s t = Some (parent, int t, Path (map int p)) \<and>
              p \<noteq> [] \<and> hd p = s \<and> last p = t \<and> linked_path (edges g) parent p \<and>
              (s, t) \<in> edges g ^^ (length p - 1) \<and>
              (\<forall>m. (s, t) \<in> edges g ^^ m \<longrightarrow> length p - 1 \<le> m))"
proof
  show "\<forall>visited parent q. bfs_loop g t (visited, parent, t # q) = Some (visited, parent, int t)"
    by (simp add: bfs_loop.simps)
next
  from bfs_found [OF assms] obtain visited parent L p where
    b: "tree_inv (num_nodes g) s (edges g) (vset visited) parent L"
      "bfs g s t = Some (parent, int t, Path (map int p))"
      "p \<noteq> []" "hd p = s" "last p = t" "length p = Suc (L t)"
      "linked_path (edges g) parent p" "(s, t) \<in> edges g ^^ L t"
      "\<forall>m. (s, t) \<in> edges g ^^ m \<longrightarrow> L t \<le> m" by blast
  then show "\<exists>parent p. bfs g s t = Some (parent, int t, Path (map int p)) \<and>
              p \<noteq> [] \<and> hd p = s \<and> last p = t \<and> linked_path (edges g) parent p \<and>
              (s, t) \<in> edges g ^^ (length p - 1) \<and>
              (\<forall>m. (s, t) \<in> edges g ^^ m \<longrightarrow> length p - 1 \<le> m)"
    by (intro exI[of _ parent] exI[of _ p]) simp
qed

theorem bfs_shortest_path_witness:
  "bfs maze_sq 0 2 = Some ([- 1, 0, 3, 0, - 1], 2, Path [0, 3, 2]) \<and>
   (\<exists>parent p. bfs maze_sq 0 2 = Some (parent, int 2, Path (map int p)) \<and>
        p \<noteq> [] \<and> hd p = 0 \<and> last p = 2 \<and> linked_path (edges maze_sq) parent p \<and>
        (0, 2) \<in> edges maze_sq ^^ (length p - 1) \<and>
        (\<forall>m. (0, 2) \<in> edges maze_sq ^^ m \<longrightarrow> length p - 1 \<le> m))"
proof -
  have wf: "wf_graph maze_sq"
    by (simp add: maze_sq_eval wf_graph_def MAX_NODES_def)
  have s: "0 < num_nodes maze_sq" by (simp add: maze_sq_eval)
  have "(0, 1) \<in> edges maze_sq" "(1, 2) \<in> edges maze_sq"
    by (simp_all add: maze_sq_eval edges_def)
  then have r: "(0, 2) \<in> (edges maze_sq)\<^sup>*" by (meson rtrancl.simps)
  have v: "bfs maze_sq 0 2 = Some ([- 1, 0, 3, 0, - 1], 2, Path [0, 3, 2])" by code_simp
  from bfs_shortest_path [OF wf s r] v show ?thesis by blast
qed

section \<open>DFS\<close>

lemma dfs_inv_enter:
  assumes inv: "dfs_inv g s (visited, parent) L" and cur: "cur \<in> vset visited"
    and nb: "nb < num_nodes g" "\<not> visited ! nb" "(cur, nb) \<in> edges g"
  shows "dfs_inv g s (visited[nb := True], parent[nb := int cur]) (L(nb := Suc (L cur)))"
proof -
  let ?n = "num_nodes g" and ?V = "vset visited"
  from inv have len: "length visited = ?n" and t: "tree_inv ?n s (edges g) ?V parent L"
    and anc: "\<forall>v\<in>?V. v = s \<or> parent ! v \<noteq> -1"
    and pv: "\<forall>v<?n. parent ! v \<noteq> -1 \<longrightarrow> v \<in> ?V"
    by (simp_all add: dfs_inv_def)
  from t have lenP: "length parent = ?n" by (simp add: tree_inv_def)
  from nb len have nV: "nb \<notin> ?V" by (simp add: vset_def)
  from anc cur have ac: "cur = s \<or> parent ! cur \<noteq> -1" by simp
  have V': "vset (visited[nb := True]) = insert nb ?V" using nb len by (simp add: vset_update)
  have "tree_inv ?n s (edges g) ?V (parent[nb := int cur]) (L(nb := Suc (L cur)))"
    using t nb(1) nV cur ac nb(3) by (rule tree_inv_assign)
  then have t': "tree_inv ?n s (edges g) (insert nb ?V) (parent[nb := int cur]) (L(nb := Suc (L cur)))"
    using nb(1) by (rule tree_inv_add)
  have a: "\<forall>v\<in>insert nb ?V. v = s \<or> parent[nb := int cur] ! v \<noteq> -1"
  proof
    fix v assume v: "v \<in> insert nb ?V"
    show "v = s \<or> parent[nb := int cur] ! v \<noteq> -1"
    proof (cases "v = nb")
      case True
      with lenP nb show ?thesis by simp
    next
      case False
      with v anc show ?thesis by auto
    qed
  qed
  have b: "\<forall>v<?n. parent[nb := int cur] ! v \<noteq> -1 \<longrightarrow> v \<in> insert nb ?V"
  proof (intro allI impI)
    fix v assume "v < ?n" "parent[nb := int cur] ! v \<noteq> -1"
    with pv show "v \<in> insert nb ?V" by (cases "v = nb") auto
  qed
  show ?thesis
    unfolding dfs_inv_def fst_conv snd_conv V'
    using len t' a b by simp
qed

lemma dfs_post_trans:
  assumes p1: "dfs_post g s t visited0 r1 L1" and nf: "\<not> fst r1"
    and p2: "dfs_post g s t (fst (snd r1)) r2 L2"
  shows "dfs_post g s t visited0 r2 L2"
proof -
  let ?V0 = "vset visited0" and ?V1 = "vset (fst (snd r1))" and ?V2 = "vset (fst (snd r2))"
  from p1 nf have s1: "?V0 \<subseteq> ?V1" and t1: "t \<notin> ?V1 - ?V0"
    and c1: "\<forall>x\<in>?V1 - ?V0. \<forall>y. (x, y) \<in> edges g \<longrightarrow> y \<in> ?V1"
    by (simp_all add: dfs_post_def)
  from p2 have i2: "dfs_inv g s (snd r2) L2" and s2: "?V1 \<subseteq> ?V2"
    and f2: "fst r2 \<longrightarrow> t \<in> ?V2"
    and t2: "\<not> fst r2 \<longrightarrow> t \<notin> ?V2 - ?V1"
    and c2: "\<not> fst r2 \<longrightarrow> (\<forall>x\<in>?V2 - ?V1. \<forall>y. (x, y) \<in> edges g \<longrightarrow> y \<in> ?V2)"
    by (simp_all add: dfs_post_def)
  have a: "?V0 \<subseteq> ?V2" using s1 s2 by blast
  have b: "\<not> fst r2 \<longrightarrow> t \<notin> ?V2 - ?V0" using t1 t2 by blast
  have c: "\<not> fst r2 \<longrightarrow> (\<forall>x\<in>?V2 - ?V0. \<forall>y. (x, y) \<in> edges g \<longrightarrow> y \<in> ?V2)"
  proof (intro impI ballI allI)
    fix x y assume nf2: "\<not> fst r2" and x: "x \<in> ?V2 - ?V0" and e: "(x, y) \<in> edges g"
    show "y \<in> ?V2"
    proof (cases "x \<in> ?V1")
      case True
      with x have "x \<in> ?V1 - ?V0" by simp
      with c1 e have "y \<in> ?V1" by blast
      with s2 show ?thesis by blast
    next
      case False
      with x have "x \<in> ?V2 - ?V1" by simp
      with c2 nf2 e show ?thesis by blast
    qed
  qed
  from i2 a f2 b c show ?thesis by (simp add: dfs_post_def)
qed

lemma dfs_post_mark:
  assumes p: "dfs_post g s t (visited[cur := True]) r L" and cur: "cur < length visited"
    and ct: "cur \<noteq> t"
    and nb: "\<not> fst r \<longrightarrow> set (adj_lists g ! cur) \<subseteq> vset (fst (snd r))"
  shows "dfs_post g s t visited r L \<and> cur \<in> vset (fst (snd r))"
proof -
  let ?V0 = "vset visited" and ?V1 = "vset (visited[cur := True])" and ?V2 = "vset (fst (snd r))"
  have V1: "?V1 = insert cur ?V0" using cur by (simp add: vset_update)
  from p have i2: "dfs_inv g s (snd r) L" and s2: "?V1 \<subseteq> ?V2"
    and f2: "fst r \<longrightarrow> t \<in> ?V2"
    and t2: "\<not> fst r \<longrightarrow> t \<notin> ?V2 - ?V1"
    and c2: "\<not> fst r \<longrightarrow> (\<forall>x\<in>?V2 - ?V1. \<forall>y. (x, y) \<in> edges g \<longrightarrow> y \<in> ?V2)"
    by (simp_all add: dfs_post_def)
  have a: "?V0 \<subseteq> ?V2" "cur \<in> ?V2" using s2 V1 by auto
  have b: "\<not> fst r \<longrightarrow> t \<notin> ?V2 - ?V0" using t2 V1 ct by auto
  have c: "\<not> fst r \<longrightarrow> (\<forall>x\<in>?V2 - ?V0. \<forall>y. (x, y) \<in> edges g \<longrightarrow> y \<in> ?V2)"
  proof (intro impI ballI allI)
    fix x y assume nf: "\<not> fst r" and x: "x \<in> ?V2 - ?V0" and e: "(x, y) \<in> edges g"
    show "y \<in> ?V2"
    proof (cases "x = cur")
      case True
      with e have "y \<in> set (adj_lists g ! cur)" by (simp add: edges_def)
      with nb nf show ?thesis by blast
    next
      case False
      with x V1 have "x \<in> ?V2 - ?V1" by simp
      with c2 nf e show ?thesis by blast
    qed
  qed
  from i2 a f2 b c show ?thesis by (simp add: dfs_post_def)
qed

lemma dfs_correct:
  shows "wf_graph g \<Longrightarrow>
     \<forall>L. cur < num_nodes g \<longrightarrow> \<not> fst st ! cur \<longrightarrow>
         dfs_inv g s ((fst st)[cur := True], snd st) L \<longrightarrow> unvisited_count (fst st) \<le> d \<longrightarrow>
         (\<exists>r L'. dfs_recursive d g cur t st = Some r \<and> dfs_post g s t (fst st) r L' \<and>
                 cur \<in> vset (fst (snd r)))"
    and "wf_graph g \<Longrightarrow>
     \<forall>L. cur \<in> vset (fst st) \<longrightarrow> dfs_inv g s st L \<longrightarrow> unvisited_count (fst st) \<le> d \<longrightarrow>
         set nbs \<subseteq> set (adj_lists g ! cur) \<longrightarrow>
         (\<exists>r L'. dfs_neighbors d g cur t nbs st = Some r \<and> dfs_post g s t (fst st) r L' \<and>
                 (\<not> fst r \<longrightarrow> set nbs \<subseteq> vset (fst (snd r))))"
proof (induction d g cur t st and d g cur t nbs st rule: dfs_recursive_dfs_neighbors.induct)
  case (1 g cur t st)
  show ?case
  proof (intro allI impI)
    fix L assume a: "cur < num_nodes g" "\<not> fst st ! cur"
      "dfs_inv g s ((fst st)[cur := True], snd st) L" "unvisited_count (fst st) \<le> 0"
    from a(3) have "length (fst st) = num_nodes g" by (simp add: dfs_inv_def)
    with a(1) have "cur < length (fst st)" by simp
    from unvisited_count_pos [OF this a(2)] a(4)
    show "\<exists>r L'. dfs_recursive 0 g cur t st = Some r \<and> dfs_post g s t (fst st) r L' \<and>
                 cur \<in> vset (fst (snd r))" by simp
  qed
next
  case (2 d g cur t st)
  show ?case
  proof (intro allI impI)
    fix L assume a: "cur < num_nodes g" "\<not> fst st ! cur"
      "dfs_inv g s ((fst st)[cur := True], snd st) L" "unvisited_count (fst st) \<le> Suc d"
    let ?vis = "(fst st)[cur := True]"
    from a(3) have len: "length (fst st) = num_nodes g" by (simp add: dfs_inv_def)
    with a(1) have cl: "cur < length (fst st)" by simp
    have V: "vset ?vis = insert cur (vset (fst st))" using cl by (simp add: vset_update)
    show "\<exists>r L'. dfs_recursive (Suc d) g cur t st = Some r \<and> dfs_post g s t (fst st) r L' \<and>
                 cur \<in> vset (fst (snd r))"
    proof (cases "cur = t")
      case True
      then have r: "dfs_recursive (Suc d) g cur t st = Some (True, ?vis, snd st)"
        by (simp add: Let_def)
      have "dfs_post g s t (fst st) (True, ?vis, snd st) L"
        using a(3) V True by (auto simp: dfs_post_def)
      with r V show ?thesis by auto
    next
      case False
      then have r: "dfs_recursive (Suc d) g cur t st =
          dfs_neighbors d g cur t (adj_lists g ! cur) (?vis, snd st)"
        by (simp add: Let_def)
      from unvisited_count_mark [OF cl a(2)] a(4) have uc: "unvisited_count ?vis \<le> d" by simp
      from "2.IH" [OF refl False "2.prems"] V a(3) uc
      obtain r1 L1 where r1: "dfs_neighbors d g cur t (adj_lists g ! cur) (?vis, snd st) = Some r1"
        "dfs_post g s t ?vis r1 L1" "\<not> fst r1 \<longrightarrow> set (adj_lists g ! cur) \<subseteq> vset (fst (snd r1))"
        by fastforce
      from dfs_post_mark [OF r1(2) cl False r1(3)] r r1(1) show ?thesis by auto
    qed
  qed
next
  case (3 d g cur t st)
  show ?case
  proof (intro allI impI)
    fix L assume a: "cur \<in> vset (fst st)" "dfs_inv g s st L"
    have "dfs_post g s t (fst st) (False, st) L"
      using a(2) by (simp add: dfs_post_def)
    then show "\<exists>r L'. dfs_neighbors d g cur t [] st = Some r \<and> dfs_post g s t (fst st) r L' \<and>
                 (\<not> fst r \<longrightarrow> set [] \<subseteq> vset (fst (snd r)))" by auto
  qed
next
  case (4 d g cur t nb rest st)
  note wf = "4.prems"
  show ?case
  proof (intro allI impI)
    fix L assume a: "cur \<in> vset (fst st)" "dfs_inv g s st L" "unvisited_count (fst st) \<le> d"
      "set (nb # rest) \<subseteq> set (adj_lists g ! cur)"
    from a(2) have len: "length (fst st) = num_nodes g" by (simp add: dfs_inv_def)
    with a(1) have cn: "cur < num_nodes g" by (simp add: vset_def)
    from a(4) have "nb \<in> set (adj_lists g ! cur)" and rs: "set rest \<subseteq> set (adj_lists g ! cur)"
      by simp_all
    from wf_graph_edge [OF wf cn this(1)] have nb: "nb < num_nodes g" "(cur, nb) \<in> edges g"
      by simp_all
    show "\<exists>r L'. dfs_neighbors d g cur t (nb # rest) st = Some r \<and> dfs_post g s t (fst st) r L' \<and>
                 (\<not> fst r \<longrightarrow> set (nb # rest) \<subseteq> vset (fst (snd r)))"
    proof (cases "fst st ! nb")
      case True
      then have r: "dfs_neighbors d g cur t (nb # rest) st = dfs_neighbors d g cur t rest st"
        by simp
      from True have "\<not> \<not> fst st ! nb" by simp
      from "4.IH"(3) [OF this wf] a(1,2,3) rs
      obtain r1 L1 where r1: "dfs_neighbors d g cur t rest st = Some r1"
        "dfs_post g s t (fst st) r1 L1" "\<not> fst r1 \<longrightarrow> set rest \<subseteq> vset (fst (snd r1))"
        by blast
      from True nb len have "nb \<in> vset (fst st)" by (simp add: vset_def)
      with r1(2) have "nb \<in> vset (fst (snd r1))" by (auto simp: dfs_post_def)
      with r r1 show ?thesis by auto
    next
      case False
      let ?st1 = "(fst st, (snd st)[nb := int cur])"
      have inv1: "dfs_inv g s ((fst ?st1)[nb := True], snd ?st1) (L(nb := Suc (L cur)))"
        using dfs_inv_enter [OF _ a(1) nb(1) False nb(2), of s "snd st" L] a(2) by simp
      from "4.IH"(1) [OF False wf] nb(1) False inv1 a(3)
      obtain r1 L1 where r1: "dfs_recursive d g nb t ?st1 = Some r1"
        "dfs_post g s t (fst st) r1 L1" "nb \<in> vset (fst (snd r1))"
        by fastforce
      show ?thesis
      proof (cases "fst r1")
        case True
        with False r1(1) have r: "dfs_neighbors d g cur t (nb # rest) st = Some (True, snd r1)"
          by simp
        from r1(2) True have "dfs_post g s t (fst st) (True, snd r1) L1"
          by (simp add: dfs_post_def)
        with r show ?thesis by auto
      next
        case nf: False
        with False r1(1) have r: "dfs_neighbors d g cur t (nb # rest) st =
            dfs_neighbors d g cur t rest (snd r1)" by simp
        from r1(2) have i1: "dfs_inv g s (snd r1) L1" and s1: "vset (fst st) \<subseteq> vset (fst (snd r1))"
          by (simp_all add: dfs_post_def)
        from i1 len have "length (fst st) = length (fst (snd r1))" by (simp add: dfs_inv_def)
        from unvisited_count_mono [OF s1 this] a(3) have uc: "unvisited_count (fst (snd r1)) \<le> d"
          by simp
        from s1 a(1) have c1: "cur \<in> vset (fst (snd r1))" by blast
        from "4.IH"(2) [OF False r1(1) nf wf] c1 i1 uc rs
        obtain r2 L2 where r2: "dfs_neighbors d g cur t rest (snd r1) = Some r2"
          "dfs_post g s t (fst (snd r1)) r2 L2" "\<not> fst r2 \<longrightarrow> set rest \<subseteq> vset (fst (snd r2))"
          by blast
        from dfs_post_trans [OF r1(2) nf r2(2)] have p: "dfs_post g s t (fst st) r2 L2" .
        from r2(2) r1(3) have "nb \<in> vset (fst (snd r2))" by (auto simp: dfs_post_def)
        with r r2 p show ?thesis by auto
      qed
    qed
  qed
qed

lemma dfs_recursive_top:
  assumes wf: "wf_graph g" and s: "s < num_nodes g" and d: "num_nodes g \<le> depth"
  shows "\<exists>r L. dfs_recursive depth g s t (replicate (num_nodes g) False, replicate (num_nodes g) (-1))
             = Some r \<and>
           dfs_post g s t (replicate (num_nodes g) False) r L"
proof -
  let ?n = "num_nodes g"
  let ?st = "(replicate ?n False, replicate ?n (-1::int))"
  have V: "vset ((replicate ?n False)[s := True]) = {s}"
    using s by (simp add: vset_update vset_replicate)
  have t: "tree_inv ?n s (edges g) {s} (replicate ?n (-1)) (\<lambda>_. 0)"
    using s by (rule tree_inv_init)
  have inv: "dfs_inv g s ((fst ?st)[s := True], snd ?st) (\<lambda>_. 0)"
    by (simp add: dfs_inv_def V t)
  have uc: "unvisited_count (fst ?st) \<le> depth"
    using d by (simp add: unvisited_count_def vset_replicate)
  have nv: "\<not> fst ?st ! s" using s by simp
  from dfs_correct(1) [OF wf, of s ?st s depth t] s nv inv uc
  show ?thesis by fastforce
qed

lemma dfs_result:
  assumes wf: "wf_graph g" and s: "s < num_nodes g" and d: "num_nodes g \<le> depth"
  shows "\<exists>visited parent found out L.
           dfs_recursive depth g s t (replicate (num_nodes g) False, replicate (num_nodes g) (-1))
             = Some (found, visited, parent) \<and>
           dfs depth g s t = Some (parent, found, out) \<and>
           tree_inv (num_nodes g) s (edges g) (vset visited) parent L \<and>
           (found \<longleftrightarrow> (s, t) \<in> (edges g)\<^sup>*) \<and>
           (found \<longrightarrow> (\<exists>p. out = Path (map int p) \<and> p \<noteq> [] \<and> hd p = s \<and> last p = t \<and>
                          linked_path (edges g) parent p)) \<and>
           (\<not> found \<longrightarrow> out = No_path \<and> (t < num_nodes g \<longrightarrow> parent ! t = -1))"
proof -
  let ?n = "num_nodes g"
  from dfs_recursive_top [OF wf s d, of t] obtain r L where
    r: "dfs_recursive depth g s t (replicate ?n False, replicate ?n (-1)) = Some r"
      "dfs_post g s t (replicate ?n False) r L" by blast
  obtain found visited parent where rs: "r = (found, visited, parent)" by (cases r)
  let ?V = "vset visited"
  from r(2) have inv: "dfs_inv g s (visited, parent) L"
    and f: "found \<longrightarrow> t \<in> ?V"
    and nf: "\<not> found \<longrightarrow> t \<notin> ?V"
    and cl: "\<not> found \<longrightarrow> (\<forall>x\<in>?V. \<forall>y. (x, y) \<in> edges g \<longrightarrow> y \<in> ?V)"
    by (simp_all add: dfs_post_def rs vset_replicate)
  from inv have len: "length visited = ?n" and tr: "tree_inv ?n s (edges g) ?V parent L"
    and anc: "\<forall>v\<in>?V. v = s \<or> parent ! v \<noteq> -1"
    and pv: "\<forall>v<?n. parent ! v \<noteq> -1 \<longrightarrow> v \<in> ?V"
    by (simp_all add: dfs_inv_def)
  from tr have sV: "s \<in> ?V" by (simp add: tree_inv_def)
  from wf have n: "?n \<le> MAX_NODES" by (simp add: wf_graph_def)
  have reach: "found \<longleftrightarrow> (s, t) \<in> (edges g)\<^sup>*"
  proof
    assume found
    with f have tV: "t \<in> ?V" by simp
    with len have tn: "t < ?n" by (simp add: vset_def)
    from anc tV have "t = s \<or> parent ! t \<noteq> -1" by blast
    from tree_inv_reach [OF tr tn this refl] show "(s, t) \<in> (edges g)\<^sup>*"
      by (rule relpow_imp_rtrancl)
  next
    assume a: "(s, t) \<in> (edges g)\<^sup>*"
    show found
    proof (rule ccontr)
      assume "\<not> found"
      with cl nf have c: "\<forall>x\<in>?V. \<forall>y. (x, y) \<in> edges g \<longrightarrow> y \<in> ?V" and tV: "t \<notin> ?V" by simp_all
      from closed_reach [OF sV c a] tV show False by simp
    qed
  qed
  show ?thesis
  proof (cases found)
    case True
    with f have tV: "t \<in> ?V" by simp
    with len have tn: "t < ?n" by (simp add: vset_def)
    from anc tV have a: "t = s \<or> parent ! t \<noteq> -1" by blast
    from print_path_tree [OF tr n tn a] obtain p where
      p: "print_path parent (int s) (int t) = Some (Path (map int p))" "p \<noteq> []" "hd p = s"
        "last p = t" "linked_path (edges g) parent p" by blast
    have "dfs depth g s t = Some (parent, found, Path (map int p))"
      using r(1) p(1) True by (simp add: dfs_def rs)
    with r(1) tr reach p True show ?thesis unfolding rs by blast
  next
    case False
    have "dfs depth g s t = Some (parent, found, No_path)"
      using r(1) False by (simp add: dfs_def rs)
    moreover from pv nf False have "t < ?n \<longrightarrow> parent ! t = -1" by blast
    ultimately show ?thesis using r(1) tr reach False unfolding rs by blast
  qed
qed


text \<open>
  C7. In a well-formed graph, with a recursion depth of at least \<open>num_nodes\<close> available,
  \<open>dfs\<close> returns, and its flag is true exactly when the target is reachable from the
  source. And in the loop over the neighbours: when the recursive call for an unvisited
  neighbour succeeds, the loop returns success with the state of that call at once,
  whatever neighbours remain.
\<close>

theorem dfs_found_iff_reachable:
  assumes "wf_graph g" and "s < num_nodes g" and "num_nodes g \<le> depth"
  shows "(\<exists>parent found out. dfs depth g s t = Some (parent, found, out) \<and>
            (found \<longleftrightarrow> (s, t) \<in> (edges g)\<^sup>*)) \<and>
         (\<forall>d cur nb rest st r.
            \<not> fst st ! nb \<longrightarrow>
            dfs_recursive d g nb t (fst st, (snd st)[nb := int cur]) = Some r \<longrightarrow> fst r \<longrightarrow>
            dfs_neighbors d g cur t (nb # rest) st = Some (True, snd r))"
proof
  from dfs_result [OF assms, of t]
  show "\<exists>parent found out. dfs depth g s t = Some (parent, found, out) \<and>
            (found \<longleftrightarrow> (s, t) \<in> (edges g)\<^sup>*)" by blast
next
  show "\<forall>d cur nb rest st r.
            \<not> fst st ! nb \<longrightarrow>
            dfs_recursive d g nb t (fst st, (snd st)[nb := int cur]) = Some r \<longrightarrow> fst r \<longrightarrow>
            dfs_neighbors d g cur t (nb # rest) st = Some (True, snd r)"
    by simp
qed

theorem dfs_found_iff_reachable_witness:
  "dfs 5 maze_sq 0 2 = Some ([- 1, - 1, 3, 0, - 1], True, Path [0, 3, 2]) \<and>
   (0, 2) \<in> (edges maze_sq)\<^sup>* \<and>
   dfs 5 maze_sq 0 4 = Some ([- 1, 2, 3, 0, - 1], False, No_path) \<and>
   (0, 4) \<notin> (edges maze_sq)\<^sup>*"
proof -
  have wf: "wf_graph maze_sq"
    by (simp add: maze_sq_eval wf_graph_def MAX_NODES_def)
  have s: "0 < num_nodes maze_sq" and d: "num_nodes maze_sq \<le> 5" by (simp_all add: maze_sq_eval)
  have v2: "dfs 5 maze_sq 0 2 = Some ([- 1, - 1, 3, 0, - 1], True, Path [0, 3, 2])" by code_simp
  have v4: "dfs 5 maze_sq 0 4 = Some ([- 1, 2, 3, 0, - 1], False, No_path)" by code_simp
  from dfs_found_iff_reachable [OF wf s d, of 2] v2 have "(0, 2) \<in> (edges maze_sq)\<^sup>*" by auto
  moreover from dfs_found_iff_reachable [OF wf s d, of 4] v4 have "(0, 4) \<notin> (edges maze_sq)\<^sup>*"
    by auto
  ultimately show ?thesis using v2 v4 by simp
qed

section \<open>Unreachable targets, backward walks and the source\<close>

lemma maze_sq_unreachable: "(0, 4) \<notin> (edges maze_sq)\<^sup>*"
proof -
  have s: "0 < num_nodes maze_sq" and d: "num_nodes maze_sq \<le> 5" by (simp_all add: maze_sq_eval)
  have v4: "dfs 5 maze_sq 0 4 = Some ([- 1, 2, 3, 0, - 1], False, No_path)" by code_simp
  from dfs_result [OF maze_sq_wf s d, of 4] v4 show ?thesis by auto
qed

lemma net_abc_unreachable: "(2, 0) \<notin> (edges_p2 net_abc)\<^sup>*"
proof
  assume "(2, 0) \<in> (edges_p2 net_abc)\<^sup>*"
  then show False
  proof (cases rule: converse_rtranclE)
    case base
    then show False by simp
  next
    case (step y)
    then show False by (simp add: edges_p2_def net_abc_eval)
  qed
qed

text \<open>
  C4. For a target that is a node and is not reachable from the source: \<open>bfs\<close> ends
  with \<open>path_found_end_node = -1\<close>, the predecessor of the target still \<open>-1\<close>, and the
  no-path message; \<open>dfs\<close> ends with \<open>found = false\<close> and the no-path message;
  \<open>dijkstra\<close> leaves the distance of the target at \<open>INFINITY\<close> and its predecessor at
  \<open>-1\<close>, and the route printer answers that there is no route.
\<close>

theorem unreachable_reports_no_path:
  assumes "wf_graph g" and "s < num_nodes g" and "t < num_nodes g"
    and "(s, t) \<notin> (edges g)\<^sup>*" and "num_nodes g \<le> depth"
    and "wf_graph_p2 gw" and "sw < num_nodes_p2 gw" and "tw < num_nodes_p2 gw"
    and "(sw, tw) \<notin> (edges_p2 gw)\<^sup>*"
  shows "(\<exists>parent. bfs g s t = Some (parent, -1, No_path) \<and> parent ! t = -1) \<and>
         (\<exists>parent. dfs depth g s t = Some (parent, False, No_path) \<and> parent ! t = -1) \<and>
         fst (dijkstra gw sw) ! tw = INFINITY \<and> snd (dijkstra gw sw) ! tw = -1 \<and>
         print_path_p2 (snd (dijkstra gw sw)) (int sw) (int tw) = Some (No_route (int sw) (int tw))"
proof -
  from bfs_result [OF assms(1,2,3)] assms(4)
  have b: "\<exists>parent. bfs g s t = Some (parent, -1, No_path) \<and> parent ! t = -1" by auto
  from dfs_result [OF assms(1,2,5), of t] assms(3,4)
  have d: "\<exists>parent. dfs depth g s t = Some (parent, False, No_path) \<and> parent ! t = -1" by auto
  from b d dijkstra_unreachable [OF assms(6,7,8,9)] show ?thesis by simp
qed

theorem unreachable_reports_no_path_witness:
  "bfs maze_sq 0 4 = Some ([- 1, 0, 3, 0, - 1], - 1, No_path) \<and>
   dfs 5 maze_sq 0 4 = Some ([- 1, 2, 3, 0, - 1], False, No_path) \<and>
   fst (dijkstra net_abc 2) ! 0 = INFINITY \<and> snd (dijkstra net_abc 2) ! 0 = - 1 \<and>
   print_path_p2 (snd (dijkstra net_abc 2)) (int 2) (int 0) = Some (No_route (int 2) (int 0))"
proof -
  have h: "0 < num_nodes maze_sq" "4 < num_nodes maze_sq" "num_nodes maze_sq \<le> 5"
    by (simp_all add: maze_sq_eval)
  have hw: "2 < num_nodes_p2 net_abc" "0 < num_nodes_p2 net_abc"
    by (simp_all add: net_abc_eval)
  have vb: "bfs maze_sq 0 4 = Some ([- 1, 0, 3, 0, - 1], - 1, No_path)" by code_simp
  have vd: "dfs 5 maze_sq 0 4 = Some ([- 1, 2, 3, 0, - 1], False, No_path)" by code_simp
  from unreachable_reports_no_path [OF maze_sq_wf h(1,2) maze_sq_unreachable h(3)
      net_abc_wf hw net_abc_unreachable] vb vd
  show ?thesis by simp
qed

text \<open>
  C8. After a run of \<open>bfs\<close>, \<open>dfs\<close> or \<open>dijkstra\<close> on a well-formed graph, the walk
  \<open>current = parent[current]\<close> from any node reaches \<open>-1\<close> within \<open>num_nodes\<close> steps,
  and the path printer returns for every end node (with at most \<open>MAX_NODES\<close> nodes its
  array is never overrun).
\<close>

theorem predecessor_walk_terminates:
  assumes "wf_graph g" and "s < num_nodes g" and "t < num_nodes g" and "num_nodes g \<le> depth"
    and "wf_graph_p2 gw" and "sw < num_nodes_p2 gw" and "num_nodes_p2 gw \<le> MAX_NODES_p2"
  shows "(\<exists>parent found out. bfs g s t = Some (parent, found, out) \<and>
            (\<forall>v<num_nodes g. (\<exists>k\<le>num_nodes g. pred_walk parent k (int v) = -1) \<and>
                              (\<exists>res. print_path parent (int s) (int v) = Some res))) \<and>
         (\<exists>parent found out. dfs depth g s t = Some (parent, found, out) \<and>
            (\<forall>v<num_nodes g. (\<exists>k\<le>num_nodes g. pred_walk parent k (int v) = -1) \<and>
                              (\<exists>res. print_path parent (int s) (int v) = Some res))) \<and>
         (\<forall>v<num_nodes_p2 gw.
            (\<exists>k\<le>num_nodes_p2 gw. pred_walk (snd (dijkstra gw sw)) k (int v) = -1) \<and>
            (\<exists>res. print_path_p2 (snd (dijkstra gw sw)) (int sw) (int v) = Some res))"
proof -
  from assms(1) have n: "num_nodes g \<le> MAX_NODES" by (simp add: wf_graph_def)
  note nw = assms(7)
  from bfs_result [OF assms(1,2,3)] obtain visited parent found out L where
    b: "bfs g s t = Some (parent, found, out)"
      "tree_inv (num_nodes g) s (edges g) (vset visited) parent L" by blast
  have "\<forall>v<num_nodes g. (\<exists>k\<le>num_nodes g. pred_walk parent k (int v) = -1) \<and>
                              (\<exists>res. print_path parent (int s) (int v) = Some res)"
    using pred_walk_tree [OF b(2)] print_path_total [OF b(2) n] by blast
  with b(1) have c1: "\<exists>parent found out. bfs g s t = Some (parent, found, out) \<and>
            (\<forall>v<num_nodes g. (\<exists>k\<le>num_nodes g. pred_walk parent k (int v) = -1) \<and>
                              (\<exists>res. print_path parent (int s) (int v) = Some res))" by blast
  from dfs_result [OF assms(1,2,4), of t] obtain visited' parent' found' out' L' where
    d: "dfs depth g s t = Some (parent', found', out')"
      "tree_inv (num_nodes g) s (edges g) (vset visited') parent' L'" by blast
  have "\<forall>v<num_nodes g. (\<exists>k\<le>num_nodes g. pred_walk parent' k (int v) = -1) \<and>
                              (\<exists>res. print_path parent' (int s) (int v) = Some res)"
    using pred_walk_tree [OF d(2)] print_path_total [OF d(2) n] by blast
  with d(1) have c2: "\<exists>parent found out. dfs depth g s t = Some (parent, found, out) \<and>
            (\<forall>v<num_nodes g. (\<exists>k\<le>num_nodes g. pred_walk parent k (int v) = -1) \<and>
                              (\<exists>res. print_path parent (int s) (int v) = Some res))" by blast
  from dijkstra_tree [OF assms(5,6)] obtain A Lw where
    w: "tree_inv (num_nodes_p2 gw) sw (edges_p2 gw) A (snd (dijkstra gw sw)) Lw" by blast
  have c3: "\<forall>v<num_nodes_p2 gw.
            (\<exists>k\<le>num_nodes_p2 gw. pred_walk (snd (dijkstra gw sw)) k (int v) = -1) \<and>
            (\<exists>res. print_path_p2 (snd (dijkstra gw sw)) (int sw) (int v) = Some res)"
    using pred_walk_tree [OF w] print_path_p2_total [OF w nw] by blast
  from c1 c2 c3 show ?thesis by blast
qed

theorem predecessor_walk_terminates_witness:
  "bfs maze_sq 0 2 = Some ([- 1, 0, 3, 0, - 1], 2, Path [0, 3, 2]) \<and>
   (\<exists>k\<le>5. pred_walk [- 1, 0, 3, 0, - 1] k (int 2) = - 1) \<and>
   (\<exists>k\<le>3. pred_walk (snd (dijkstra net_abc 0)) k (int 2) = - 1)"
proof -
  have h: "0 < num_nodes maze_sq" "2 < num_nodes maze_sq" "num_nodes maze_sq \<le> 5"
    and n: "num_nodes maze_sq = 5"
    by (simp_all add: maze_sq_eval)
  have hw: "0 < num_nodes_p2 net_abc" and nw: "num_nodes_p2 net_abc = 3"
    by (simp_all add: net_abc_eval)
  have vb: "bfs maze_sq 0 2 = Some ([- 1, 0, 3, 0, - 1], 2, Path [0, 3, 2])" by code_simp
  have mw: "num_nodes_p2 net_abc \<le> MAX_NODES_p2" by (simp add: nw MAX_NODES_p2_def)
  from predecessor_walk_terminates [OF maze_sq_wf h net_abc_wf hw mw] vb
  have a: "\<forall>v<num_nodes maze_sq. \<exists>k\<le>num_nodes maze_sq. pred_walk [- 1, 0, 3, 0, - 1] k (int v) = -1"
    and b: "\<forall>v<num_nodes_p2 net_abc.
            \<exists>k\<le>num_nodes_p2 net_abc. pred_walk (snd (dijkstra net_abc 0)) k (int v) = -1"
    by auto
  from a [rule_format, of 2] have "\<exists>k\<le>5. pred_walk [- 1, 0, 3, 0, - 1] k (int 2) = - 1"
    by (simp only: n)
  moreover from b [rule_format, of 2] have "\<exists>k\<le>3. pred_walk (snd (dijkstra net_abc 0)) k (int 2) = - 1"
    by (simp only: nw)
  ultimately show ?thesis using vb by blast
qed

text \<open>
  C10. After a run of \<open>bfs\<close>, \<open>dfs\<close> or \<open>dijkstra\<close> on a well-formed graph the predecessor
  entry of the source is still \<open>-1\<close>.
\<close>

theorem source_has_no_predecessor:
  assumes "wf_graph g" and "s < num_nodes g" and "t < num_nodes g" and "num_nodes g \<le> depth"
    and "wf_graph_p2 gw" and "sw < num_nodes_p2 gw"
  shows "(\<exists>parent found out. bfs g s t = Some (parent, found, out) \<and> parent ! s = -1) \<and>
         (\<exists>parent found out. dfs depth g s t = Some (parent, found, out) \<and> parent ! s = -1) \<and>
         snd (dijkstra gw sw) ! sw = -1"
proof -
  from bfs_result [OF assms(1,2,3)] obtain visited parent found out L where
    b: "bfs g s t = Some (parent, found, out)"
      "tree_inv (num_nodes g) s (edges g) (vset visited) parent L" by blast
  from b(2) have "parent ! s = -1" by (simp add: tree_inv_def)
  with b(1) have c1: "\<exists>parent found out. bfs g s t = Some (parent, found, out) \<and> parent ! s = -1"
    by blast
  from dfs_result [OF assms(1,2,4), of t] obtain visited' parent' found' out' L' where
    d: "dfs depth g s t = Some (parent', found', out')"
      "tree_inv (num_nodes g) s (edges g) (vset visited') parent' L'" by blast
  from d(2) have "parent' ! s = -1" by (simp add: tree_inv_def)
  with d(1) have c2: "\<exists>parent found out. dfs depth g s t = Some (parent, found, out) \<and> parent ! s = -1"
    by blast
  from dijkstra_tree [OF assms(5,6)] obtain A Lw where
    w: "tree_inv (num_nodes_p2 gw) sw (edges_p2 gw) A (snd (dijkstra gw sw)) Lw" by blast
  then have c3: "snd (dijkstra gw sw) ! sw = -1" by (simp add: tree_inv_def)
  from c1 c2 c3 show ?thesis by blast
qed

theorem source_has_no_predecessor_witness:
  "bfs maze_sq 1 3 = Some ([1, - 1, 1, 2, - 1], 3, Path [1, 2, 3]) \<and>
   dfs 5 maze_sq 1 3 = Some ([- 1, - 1, 1, 2, - 1], True, Path [1, 2, 3]) \<and>
   snd (dijkstra net_abc 1) ! 1 = - 1"
proof -
  have h: "1 < num_nodes maze_sq" "3 < num_nodes maze_sq" "num_nodes maze_sq \<le> 5"
    by (simp_all add: maze_sq_eval)
  have hw: "1 < num_nodes_p2 net_abc" by (simp add: net_abc_eval)
  have vb: "bfs maze_sq 1 3 = Some ([1, - 1, 1, 2, - 1], 3, Path [1, 2, 3])" by code_simp
  have vd: "dfs 5 maze_sq 1 3 = Some ([- 1, - 1, 1, 2, - 1], True, Path [1, 2, 3])" by code_simp
  from source_has_no_predecessor [OF maze_sq_wf h net_abc_wf hw] vb vd
  show ?thesis by simp
qed

section \<open>Path reconstruction\<close>






end
